theory Spec2Isabelle
  imports Main "HOL-Library.Sublist"
begin

section \<open>The standard-library string operations used by the formatter\<close>

text \<open>
  Errors are values. \<open>OutOfRange\<close> is \<open>std::out_of_range\<close>, thrown by
  \<open>basic_string::at\<close> and \<open>basic_string::substr\<close>. \<open>IllFormed\<close> stands for a call
  that the compiler rejects (an ambiguous overload of \<open>OutputValue\<close>, no overload at
  all, or an overload whose body does not compile for the type). \<open>Thrown\<close> is an
  exception that leaves the \<open>operator<<\<close> of an argument.
\<close>

datatype error = OutOfRange | IllFormed | Thrown

text \<open>
  \<open>size_t\<close> is taken as a 64-bit unsigned integer. Positions are natural numbers; the
  only operation of the source that can leave the range is the subtraction, whose
  wrap-around is written out. A \<open>basic_string\<close> is shorter than \<open>max_size()\<close>, so the
  additions \<open>pos += mask_len\<close> cannot overflow.
\<close>

definition SIZE_MAX :: nat where
  "SIZE_MAX = 2 ^ 64 - 1"

definition size_sub :: "nat \<Rightarrow> nat \<Rightarrow> nat" where
  "size_sub a b = (if b \<le> a then a - b else SIZE_MAX + 1 - (b - a))"

text \<open>\<open>str.at(i)\<close>: the character at \<open>i\<close>, or \<open>std::out_of_range\<close>.\<close>

definition at :: "string \<Rightarrow> nat \<Rightarrow> error + char" where
  "at str i = (if i < length str then Inr (str ! i) else Inl OutOfRange)"

text \<open>
  \<open>str.substr(pos, n)\<close>: at most \<open>n\<close> characters from \<open>pos\<close> on (all that are left when
  \<open>n\<close> is \<open>npos\<close> or larger than the rest), or \<open>std::out_of_range\<close> when \<open>pos > size()\<close>.
\<close>

definition substr :: "string \<Rightarrow> nat \<Rightarrow> nat \<Rightarrow> error + string" where
  "substr str pos n = (if pos \<le> length str then Inr (take n (drop pos str)) else Inl OutOfRange)"

text \<open>
  \<open>str.find(s, pos)\<close>: the least index at or after \<open>pos\<close> where \<open>s\<close> occurs in \<open>str\<close>;
  \<open>None\<close> is \<open>npos\<close>. \<open>search\<close> looks for the first occurrence in a suffix.
\<close>

fun search :: "string \<Rightarrow> string \<Rightarrow> nat option" where
  "search s [] = (if s = [] then Some 0 else None)"
| "search s (c # cs) =
     (if take (length s) (c # cs) = s then Some 0 else map_option Suc (search s cs))"

definition find :: "string \<Rightarrow> string \<Rightarrow> nat \<Rightarrow> nat option" where
  "find str s pos =
     (if length str < pos then None
      else map_option (\<lambda>i. pos + i) (search s (drop pos str)))"

section \<open>Formatter settings\<close>

text \<open>
  \<open>std::ios_base::fmtflags\<close> is a bitmask type: a value is a set of flag bits, \<open>|\<close> is
  union, \<open>&\<close> is intersection and \<open>& ~m\<close> removes the bits of \<open>m\<close>. A locale is
  identified by its name; \<open>std::streamsize\<close> is a signed integer.
\<close>

datatype fmtflag =
  Boolalpha | Dec | Fixed | Hex | Internal | Left | Oct | Right | Scientific
  | Showbase | Showpoint | Showpos | Skipws | Unitbuf | Uppercase

type_synonym fmtflags = "fmtflag set"

datatype std_locale = Locale string

record Formatter =
  m_ptr_locale :: std_locale
  m_flags :: fmtflags
  m_precision :: int

text \<open>The two constructors; \<open>std::locale()\<close> is passed in as \<open>global_locale\<close>.\<close>

definition Formatter_default :: "std_locale \<Rightarrow> Formatter" where
  "Formatter_default global_locale =
     \<lparr>m_ptr_locale = global_locale, m_flags = {Skipws} \<union> {Dec}, m_precision = 6\<rparr>"

definition Formatter_init :: "std_locale \<Rightarrow> fmtflags \<Rightarrow> int \<Rightarrow> Formatter" where
  "Formatter_init loc flags precision =
     \<lparr>m_ptr_locale = loc, m_flags = flags, m_precision = precision\<rparr>"

text \<open>
  The accessors. A member function that changes the formatter returns its result paired
  with the new formatter. \<open>Flags\<close> and \<open>Precision\<close> are the \<open>const\<close> overloads,
  \<open>Flags_set\<close> and \<open>Precision_set\<close> the ones with an argument, \<open>SetF_masked\<close> is
  \<open>SetF(flags, mask)\<close>. \<open>UnSetF\<close> is declared \<open>void\<close>.
\<close>

definition Flags :: "Formatter \<Rightarrow> fmtflags" where
  "Flags fm = m_flags fm"

definition Flags_set :: "fmtflags \<Rightarrow> Formatter \<Rightarrow> fmtflags \<times> Formatter" where
  "Flags_set flags fm = (let old_flags = m_flags fm in (old_flags, fm\<lparr>m_flags := flags\<rparr>))"

definition SetF :: "fmtflags \<Rightarrow> Formatter \<Rightarrow> fmtflags \<times> Formatter" where
  "SetF flags fm =
     (let old_flags = m_flags fm in (old_flags, fm\<lparr>m_flags := m_flags fm \<union> flags\<rparr>))"

definition SetF_masked :: "fmtflags \<Rightarrow> fmtflags \<Rightarrow> Formatter \<Rightarrow> fmtflags \<times> Formatter" where
  "SetF_masked flags msk fm =
     (let old_flags = m_flags fm;
          fm1 = fm\<lparr>m_flags := m_flags fm - msk\<rparr>;
          fm2 = fm1\<lparr>m_flags := m_flags fm1 \<union> (flags \<inter> msk)\<rparr>
      in (old_flags, fm2))"

definition UnSetF :: "fmtflags \<Rightarrow> Formatter \<Rightarrow> unit \<times> Formatter" where
  "UnSetF flags fm = ((), fm\<lparr>m_flags := m_flags fm - flags\<rparr>)"

definition Imbue :: "std_locale \<Rightarrow> Formatter \<Rightarrow> std_locale \<times> Formatter" where
  "Imbue loc fm =
     (let old_locale = m_ptr_locale fm in (old_locale, fm\<lparr>m_ptr_locale := loc\<rparr>))"

definition Getloc :: "Formatter \<Rightarrow> std_locale" where
  "Getloc fm = m_ptr_locale fm"

definition Precision :: "Formatter \<Rightarrow> int" where
  "Precision fm = m_precision fm"

definition Precision_set :: "int \<Rightarrow> Formatter \<Rightarrow> int \<times> Formatter" where
  "Precision_set prec fm = (let old_prec = m_precision fm in (old_prec, fm\<lparr>m_precision := prec\<rparr>))"

section \<open>The string stream\<close>

text \<open>
  \<open>Format\<close> renders the arguments and builds its result on one
  \<open>std::basic_stringstream\<close>. Its state, as far as the stream operations of the
  formatter depend on it: the precision, the locale, the format flags, the field width
  and the fill character; whether the stream is good (no error bit is set); the
  characters of the buffer and the put position in it. The exception mask is not part of
  the state: an \<open>operator<<\<close> that throws is an \<open>inserter\<close> with the result
  \<open>Inl Thrown\<close>, and the insertion of a string does not throw. The stream writes to
  its own string buffer throughout.
\<close>

record sstream =
  ss_precision :: int
  ss_loc :: std_locale
  ss_flags :: fmtflags
  ss_width :: int
  ss_fill :: char
  ss_good :: bool
  ss_buf :: string
  ss_pos :: nat

text \<open>
  Lines 63 and 64: a new stream (field width 0, fill character space, no error bit, an
  empty buffer) on which \<open>AssignStreamSettings\<close> has set the precision, the locale and
  the flags of the formatter.
\<close>

definition AssignStreamSettings :: "Formatter \<Rightarrow> sstream" where
  "AssignStreamSettings fm =
     \<lparr>ss_precision = m_precision fm, ss_loc = m_ptr_locale fm, ss_flags = m_flags fm,
      ss_width = 0, ss_fill = CHR '' '', ss_good = True, ss_buf = [], ss_pos = 0\<rparr>"

text \<open>
  \<open>stream << s\<close> for a string, a C string or a character, a formatted output function.
  On a stream that is not good it writes nothing and leaves the field width. Otherwise
  it writes \<open>s\<close> at the put position, filled up to the field width with the fill
  character (after \<open>s\<close> when the adjustment is \<open>left\<close>, before it otherwise), and sets
  the field width to 0.
\<close>

definition padded :: "sstream \<Rightarrow> string \<Rightarrow> string" where
  "padded st s =
     (let fill = replicate (nat (ss_width st - int (length s))) (ss_fill st)
      in if ss_flags st \<inter> {Left, Right, Internal} = {Left} then s @ fill else fill @ s)"

definition overwrite :: "string \<Rightarrow> sstream \<Rightarrow> sstream" where
  "overwrite s st =
     st\<lparr>ss_buf := take (ss_pos st) (ss_buf st) @ s @ drop (ss_pos st + length s) (ss_buf st),
        ss_pos := ss_pos st + length s\<rparr>"

definition put_string :: "string \<Rightarrow> sstream \<Rightarrow> sstream" where
  "put_string s st =
     (if ss_good st then (overwrite (padded st s) st)\<lparr>ss_width := 0\<rparr> else st)"

text \<open>\<open>stream.str("")\<close>: an empty buffer; the error state and the settings stay.\<close>

definition str_clear :: "sstream \<Rightarrow> sstream" where
  "str_clear st = st\<lparr>ss_buf := [], ss_pos := 0\<rparr>"

section \<open>Formatter::Format: scanning and substitution\<close>

text \<open>The format specifier, \<open>SUBSTITUTE_MASK\<close>, and its length \<open>std::strlen(SUBSTITUTE_MASK)\<close>.\<close>

definition SUBSTITUTE_MASK :: string where
  "SUBSTITUTE_MASK = ''%?''"

definition mask_len :: nat where
  "mask_len = length SUBSTITUTE_MASK"

text \<open>The test \<open>pos > 0 && str.at(pos - 1) == '%'\<close>, with its short-circuit.\<close>

definition screened :: "string \<Rightarrow> nat \<Rightarrow> error + bool" where
  "screened str pos =
     (if 0 < pos
      then (case at str (size_sub pos 1) of Inl e \<Rightarrow> Inl e | Inr c \<Rightarrow> Inr (c = CHR ''%''))
      else Inr False)"

lemma search_bounds:
  "search s xs = Some i \<Longrightarrow> i + length s \<le> length xs"
proof (induction xs arbitrary: i)
  case Nil
  then show ?case by (simp split: if_splits)
next
  case (Cons c cs)
  show ?case
  proof (cases "take (length s) (c # cs) = s")
    case True
    have "length (take (length s) (c # cs)) \<le> length (c # cs)"
      by simp
    with True have "length s \<le> length (c # cs)"
      by simp
    with True Cons.prems show ?thesis by simp
  next
    case False
    with Cons.prems obtain j where "search s cs = Some j" "i = Suc j" by auto
    with Cons.IH show ?thesis by fastforce
  qed
qed

lemma find_bounds:
  "find str s pos = Some p \<Longrightarrow> pos \<le> p \<and> p + length s \<le> length str"
  unfolding find_def
  by (auto split: if_splits dest!: search_bounds)

text \<open>
  The \<open>while\<close> loop of \<open>Format\<close> (lines 74 to 85). Its state is \<open>last_pos\<close>,
  \<open>arg_counter\<close> and the stream, to which it writes; \<open>parameter_values\<close> are the
  rendered arguments and \<open>args_sz\<close> is their number. The loop ends when \<open>find\<close>
  returns \<open>npos\<close>.
\<close>

function Format_loop ::
  "string \<Rightarrow> string list \<Rightarrow> nat \<Rightarrow> nat \<Rightarrow> sstream \<Rightarrow> error + (sstream \<times> nat \<times> nat)" where
  "Format_loop str parameter_values last_pos arg_counter stream =
     (case find str SUBSTITUTE_MASK last_pos of
        None \<Rightarrow> Inr (stream, last_pos, arg_counter)
      | Some pos \<Rightarrow>
          (case screened str pos of
             Inl e \<Rightarrow> Inl e
           | Inr True \<Rightarrow>
               (case substr str last_pos (size_sub (size_sub pos last_pos) 1) of
                  Inl e \<Rightarrow> Inl e
                | Inr lit \<Rightarrow>
                    Format_loop str parameter_values (pos + mask_len) arg_counter
                      (put_string SUBSTITUTE_MASK (put_string lit stream)))
           | Inr False \<Rightarrow>
               (case substr str last_pos (size_sub pos last_pos) of
                  Inl e \<Rightarrow> Inl e
                | Inr lit \<Rightarrow>
                    (if arg_counter < length parameter_values
                     then Format_loop str parameter_values (pos + mask_len) (arg_counter + 1)
                            (put_string (parameter_values ! arg_counter) (put_string lit stream))
                     else Format_loop str parameter_values (pos + mask_len) arg_counter
                            (put_string ''?'' (put_string lit stream))))))"
  by pat_completeness auto
termination
proof (relation "measure (\<lambda>(str, pv, last_pos, k, out). length str - last_pos)")
  show "wf (measure (\<lambda>(str, pv, last_pos, k, out). length str - last_pos))"
    by simp
qed (auto dest!: find_bounds simp: mask_len_def SUBSTITUTE_MASK_def)

text \<open>
  Lines 70 to 86: the loop from the start of the string, then the rest of the string
  after the last occurrence, written to the stream. The result is the stream, paired
  with the final \<open>arg_counter\<close>.
\<close>

definition Format_scan :: "string \<Rightarrow> string list \<Rightarrow> sstream \<Rightarrow> error + (sstream \<times> nat)" where
  "Format_scan str parameter_values stream =
     (case Format_loop str parameter_values 0 0 stream of
        Inl e \<Rightarrow> Inl e
      | Inr (stream1, last_pos, arg_counter) \<Rightarrow>
          (case substr str last_pos (size_sub (length str) last_pos) of
             Inl e \<Rightarrow> Inl e
           | Inr rest \<Rightarrow> Inr (put_string rest stream1, arg_counter)))"

section \<open>Formatter::OutputValue: rendering one argument\<close>

text \<open>
  The \<open>operator<<\<close> of a type, for one value: what it does to the stream it is given.
  It can write, change the settings and the error state, or throw.
\<close>

type_synonym inserter = "sstream \<Rightarrow> error + sstream"

text \<open>
  An argument, by what its C++ type offers to the overloads of \<open>OutputValue\<close>:
  \<^item> \<open>Bool b\<close> is a \<open>bool\<close>;
  \<^item> \<open>BasicString s\<close> is a \<open>std::basic_string\<close>;
  \<^item> \<open>StdPair a b ins\<close> is a \<open>std::pair\<close>, with the \<open>operator<<\<close> the program defines
    for it, if it defines one;
  \<^item> \<open>Object ins els\<close> is a value of any other type: \<open>ins\<close> is its \<open>operator<<\<close>
    (numbers, C strings, manipulators and \<open>FWrapper\<close> are of this kind); \<open>els\<close> is
    \<open>Some (ok, xs)\<close> when the type has \<open>const_iterator\<close>, \<open>value_type\<close>, \<open>begin()\<close>
    and \<open>end()\<close>, \<open>xs\<close> being the elements and \<open>ok\<close> telling whether the body of the
    overload for iterable types is well-formed for the type: \<open>t.empty()\<close>,
    \<open>--t.end()\<close> and the call of \<open>OutputValue\<close> for an element.
\<close>

datatype val =
    Bool bool
  | BasicString string
  | StdPair val val "inserter option"
  | Object "inserter option" "(bool \<times> val list) option"

text \<open>Whether \<open>std::cout << t\<close> is a valid expression.\<close>

fun streamable :: "val \<Rightarrow> bool" where
  "streamable (Bool b) = True"
| "streamable (BasicString s) = True"
| "streamable (StdPair a b ins) = (ins \<noteq> None)"
| "streamable (Object ins els) = (ins \<noteq> None)"

fun iterable :: "val \<Rightarrow> bool" where
  "iterable (Bool b) = False"
| "iterable (BasicString s) = True"
| "iterable (StdPair a b ins) = False"
| "iterable (Object ins els) = (els \<noteq> None)"

text \<open>
  The six overloads of \<open>OutputValue\<close>, in the order of the source: for a type with an
  \<open>operator<<\<close>, for a type that can be iterated, for \<open>basic_string\<close>, for \<open>pair\<close>, for
  \<open>bool\<close>, and the one with an ellipsis.
\<close>

datatype overload = Ov_stream | Ov_iter | Ov_string | Ov_pair | Ov_bool | Ov_ellipsis

definition overloads :: "overload list" where
  "overloads = [Ov_stream, Ov_iter, Ov_string, Ov_pair, Ov_bool, Ov_ellipsis]"

text \<open>
  An overload is viable when template argument deduction succeeds for it: the default
  template arguments of \<open>Ov_stream\<close>, \<open>Ov_iter\<close> and \<open>Ov_string\<close> remove the overload
  when the expression or the member type they name does not exist.
\<close>

fun viable :: "val \<Rightarrow> overload \<Rightarrow> bool" where
  "viable v Ov_stream = streamable v"
| "viable v Ov_iter = iterable v"
| "viable v Ov_string = (case v of BasicString s \<Rightarrow> True | _ \<Rightarrow> False)"
| "viable v Ov_pair = (case v of StdPair a b ins \<Rightarrow> True | _ \<Rightarrow> False)"
| "viable v Ov_bool = (case v of Bool b \<Rightarrow> True | _ \<Rightarrow> False)"
| "viable v Ov_ellipsis = True"

text \<open>
  \<open>better c d\<close>: overload resolution prefers \<open>c\<close> to \<open>d\<close> when both are viable. Every
  other overload is preferred to the ellipsis. \<open>const basic_string<T>&\<close>,
  \<open>const pair<T,V>&\<close> and \<open>bool\<close> are more specialised than the \<open>const T&\<close> of
  \<open>Ov_stream\<close> and \<open>Ov_iter\<close>. These two have the same parameters, so neither is
  preferred to the other.
\<close>

fun better :: "overload \<Rightarrow> overload \<Rightarrow> bool" where
  "better Ov_ellipsis d = False"
| "better c Ov_ellipsis = True"
| "better Ov_string Ov_stream = True"
| "better Ov_string Ov_iter = True"
| "better Ov_pair Ov_stream = True"
| "better Ov_pair Ov_iter = True"
| "better Ov_bool Ov_stream = True"
| "better Ov_bool Ov_iter = True"
| "better c d = False"

definition candidates :: "val \<Rightarrow> overload list" where
  "candidates v = filter (viable v) overloads"

text \<open>
  The overload the call \<open>OutputValue(stream, t)\<close> selects: the viable one that is
  preferred to every other viable one. \<open>None\<close>: the call is ambiguous.
\<close>

definition resolve :: "val \<Rightarrow> overload option" where
  "resolve v =
     (case filter (\<lambda>c. \<forall>d \<in> set (candidates v). d = c \<or> better c d) (candidates v) of
        [c] \<Rightarrow> Some c
      | _ \<Rightarrow> None)"

text \<open>
  \<open>OutputValue(stream, t)\<close>: the stream after the call, or the error. The body that runs
  is the one of the selected overload; each body is given for the values its parameter
  can bind. \<open>OutputElems\<close> is the \<open>for\<close> loop of the overload for iterable types:
  \<open>it != last\<close> holds while elements remain after the current one.
\<close>

fun OutputValue :: "sstream \<Rightarrow> val \<Rightarrow> error + sstream"
  and OutputElems :: "sstream \<Rightarrow> val list \<Rightarrow> error + sstream" where
  "OutputValue stream (Bool b) =
     (case resolve (Bool b) of
        Some Ov_bool \<Rightarrow> Inr (put_string (if b then ''true'' else ''false'') stream)
      | _ \<Rightarrow> Inl IllFormed)"
| "OutputValue stream (BasicString str) =
     (case resolve (BasicString str) of
        Some Ov_string \<Rightarrow> Inr (put_string str stream)
      | _ \<Rightarrow> Inl IllFormed)"
| "OutputValue stream (StdPair first second ins) =
     (case resolve (StdPair first second ins) of
        Some Ov_pair \<Rightarrow>
          (case OutputValue (put_string ''{'' stream) first of
             Inl e \<Rightarrow> Inl e
           | Inr stream1 \<Rightarrow>
               (case OutputValue (put_string '' : '' stream1) second of
                  Inl e \<Rightarrow> Inl e
                | Inr stream2 \<Rightarrow> Inr (put_string ''}'' stream2)))
      | _ \<Rightarrow> Inl IllFormed)"
| "OutputValue stream (Object ins els) =
     (case resolve (Object ins els) of
        Some Ov_stream \<Rightarrow> (case ins of None \<Rightarrow> Inl IllFormed | Some f \<Rightarrow> f stream)
      | Some Ov_iter \<Rightarrow>
          (case els of
             None \<Rightarrow> Inl IllFormed
           | Some (ok, t) \<Rightarrow>
               (if \<not> ok then Inl IllFormed
                else if t = [] then Inr (put_string '']'' (put_string ''['' stream))
                else (case OutputElems (put_string ''['' stream) t of
                        Inl e \<Rightarrow> Inl e
                      | Inr stream1 \<Rightarrow> Inr (put_string '']'' stream1))))
      | Some Ov_ellipsis \<Rightarrow> Inr (put_string ''?'' stream)
      | _ \<Rightarrow> Inl IllFormed)"
| "OutputElems stream [] = Inr stream"
| "OutputElems stream (x # rest) =
     (case OutputValue stream x of
        Inl e \<Rightarrow> Inl e
      | Inr stream1 \<Rightarrow>
          OutputElems (if rest \<noteq> [] then put_string '', '' stream1 else stream1) rest)"

text \<open>
  \<open>Output\<close> wraps a value in an \<open>FWrapper\<close>, whose \<open>operator<<\<close> writes the wrapped
  value with the value's own \<open>operator<<\<close>. The wrapper has no iterators. Wrapping a
  value that has no \<open>operator<<\<close> does not compile. The \<open>operator<<\<close> of the library
  for \<open>bool\<close> is the parameter \<open>put_bool\<close>.
\<close>

fun Output :: "(bool \<Rightarrow> inserter) \<Rightarrow> val \<Rightarrow> val option" where
  "Output put_bool (Bool b) = Some (Object (Some (put_bool b)) None)"
| "Output put_bool (BasicString s) = Some (Object (Some (\<lambda>stream. Inr (put_string s stream))) None)"
| "Output put_bool (StdPair a b ins) =
     (case ins of None \<Rightarrow> None | Some f \<Rightarrow> Some (Object (Some f) None))"
| "Output put_bool (Object ins els) =
     (case ins of None \<Rightarrow> None | Some f \<Rightarrow> Some (Object (Some f) None))"

text \<open>
  \<open>GetOutputParameters\<close> renders the arguments in call order on the one stream: after
  each \<open>OutputValue\<close> the buffer is stored in \<open>parameter_values\<close> and cleared.
  It has an overload for one argument and one for more; none takes an empty pack.
\<close>

fun GetOutputParameters :: "sstream \<Rightarrow> val list \<Rightarrow> error + (string list \<times> sstream)" where
  "GetOutputParameters stream [] = Inl IllFormed"
| "GetOutputParameters stream [t] =
     (case OutputValue stream t of
        Inl e \<Rightarrow> Inl e
      | Inr stream1 \<Rightarrow> Inr ([ss_buf stream1], str_clear stream1))"
| "GetOutputParameters stream (t # args) =
     (case OutputValue stream t of
        Inl e \<Rightarrow> Inl e
      | Inr stream1 \<Rightarrow>
          (case GetOutputParameters (str_clear stream1) args of
             Inl e \<Rightarrow> Inl e
           | Inr (rest, stream2) \<Rightarrow> Inr (ss_buf stream1 # rest, stream2)))"

section \<open>The overloads of Format\<close>

text \<open>
  \<open>Format_general\<close> is the variadic overload (lines 61 to 88): it renders the
  arguments, scans the template on the same stream and returns \<open>stream.str()\<close>.
  \<open>Format_noargs\<close> is the overload that takes the string alone (lines 92 to 96). A
  call with no argument selects \<open>Format_noargs\<close>: it is the more specialised of the two,
  and the variadic one could not be instantiated with an empty pack. \<open>Format\<close> is the
  call as overload resolution dispatches it. The overload for a character pointer
  (lines 49 to 54) builds the string and makes this call.
\<close>

definition Format_general :: "Formatter \<Rightarrow> string \<Rightarrow> val list \<Rightarrow> error + string" where
  "Format_general fm str args =
     (case GetOutputParameters (AssignStreamSettings fm) args of
        Inl e \<Rightarrow> Inl e
      | Inr (parameter_values, stream) \<Rightarrow>
          (case Format_scan str parameter_values stream of
             Inl e \<Rightarrow> Inl e
           | Inr (stream1, arg_counter) \<Rightarrow> Inr (ss_buf stream1)))"

definition Format_noargs :: "string \<Rightarrow> string" where
  "Format_noargs str = str"

definition Format :: "Formatter \<Rightarrow> string \<Rightarrow> val list \<Rightarrow> error + string" where
  "Format fm str args =
     (if args = [] then Inr (Format_noargs str) else Format_general fm str args)"

section \<open>Vocabulary of the specification\<close>

text \<open>
  The definitions of this section come from the wording of the specification, not from
  the code; the theorems below compare them with the code.

  An occurrence of the placeholder token at position \<open>p\<close> is escaped when it does not
  start at position 0 and the character before it is \<open>%\<close>. \<open>placeholders\<close> lists the
  positions of the non-escaped occurrences, from left to right.
\<close>

definition occurrence :: "string \<Rightarrow> nat \<Rightarrow> bool" where
  "occurrence str p \<longleftrightarrow> take 2 (drop p str) = ''%?''"

definition escaped :: "string \<Rightarrow> nat \<Rightarrow> bool" where
  "escaped str p \<longleftrightarrow> occurrence str p \<and> 0 < p \<and> str ! (p - 1) = CHR ''%''"

definition placeholders :: "string \<Rightarrow> nat list" where
  "placeholders str = filter (\<lambda>p. occurrence str p \<and> \<not> escaped str p) [0..<length str]"

text \<open>
  \<open>unescaped prev s p\<close>: a non-escaped occurrence at position \<open>p\<close> of \<open>s\<close>, when
  \<open>prev\<close> tells whether a \<open>%\<close> stands before the first character of \<open>s\<close>.
\<close>

definition unescaped :: "bool \<Rightarrow> string \<Rightarrow> nat \<Rightarrow> bool" where
  "unescaped prev s p \<longleftrightarrow>
     take 2 (drop p s) = ''%?'' \<and> \<not> (if p = 0 then prev else s ! (p - 1) = CHR ''%'')"

text \<open>
  \<open>substituted esc str ps\<close> is the template \<open>str\<close> read from left to right, with each
  non-escaped occurrence of \<open>%?\<close> replaced by the next string of \<open>ps\<close> (by the
  unknown marker \<open>?\<close> once \<open>ps\<close> is used up), each escaped occurrence \<open>%%?\<close>
  replaced by \<open>esc\<close>, and every other character copied. With \<open>esc = ''%%?''\<close> all
  text but the non-escaped occurrences is unchanged; with \<open>esc = ''%?''\<close> the escape
  character is consumed. \<open>sites\<close> counts the non-escaped occurrences in the same scan.
\<close>

fun substituted :: "string \<Rightarrow> string \<Rightarrow> string list \<Rightarrow> string" where
  "substituted esc [] ps = []"
| "substituted esc (c # cs) ps =
     (if c = CHR ''%'' \<and> take 2 cs = ''%?'' then esc @ substituted esc (drop 2 cs) ps
      else if c = CHR ''%'' \<and> take 1 cs = ''?''
        then (case ps of [] \<Rightarrow> ''?'' | p # qs \<Rightarrow> p) @ substituted esc (drop 1 cs) (tl ps)
      else c # substituted esc cs ps)"

fun sites :: "string \<Rightarrow> nat" where
  "sites [] = 0"
| "sites (c # cs) =
     (if c = CHR ''%'' \<and> take 2 cs = ''%?'' then sites (drop 2 cs)
      else if c = CHR ''%'' \<and> take 1 cs = ''?'' then Suc (sites (drop 1 cs))
      else sites cs)"




text \<open>
  The rendering rule that the specification's priority order selects: the first rule, in
  the order boolean, text, pair, custom-convertible, sequence, unknown, whose capability
  the value has.
\<close>

definition priority_order :: "overload list" where
  "priority_order = [Ov_bool, Ov_string, Ov_pair, Ov_stream, Ov_iter, Ov_ellipsis]"

definition priority_rule :: "val \<Rightarrow> overload" where
  "priority_rule v = hd (filter (viable v) priority_order)"

text \<open>
  A stream is ready when it is good, its field width is 0 and the put position is the
  end of the buffer: then \<open>stream << s\<close> appends \<open>s\<close> as it is. \<open>with_text st b\<close> is
  the stream \<open>st\<close> with the text \<open>b\<close> written so far. \<open>renders st x r\<close>: on the stream
  \<open>st\<close>, whatever has been written so far, \<open>OutputValue\<close> appends the text \<open>r\<close> for
  the value \<open>x\<close> and leaves the settings and the state of the stream as they are.
\<close>

definition ready :: "sstream \<Rightarrow> bool" where
  "ready st \<longleftrightarrow> ss_good st \<and> ss_width st = 0 \<and> ss_pos st = length (ss_buf st)"

definition with_text :: "sstream \<Rightarrow> string \<Rightarrow> sstream" where
  "with_text st b = st\<lparr>ss_buf := b, ss_pos := length b\<rparr>"

definition renders :: "sstream \<Rightarrow> val \<Rightarrow> string \<Rightarrow> bool" where
  "renders st x r \<longleftrightarrow> (\<forall>b. OutputValue (with_text st b) x = Inr (with_text st (b @ r)))"

text \<open>
  Three \<open>operator<<\<close> for the examples: one that inserts a fixed string
  (\<open>os << s\<close>), one that inserts a string and then sets \<open>failbit\<close>, and the one of
  \<open>std::setw(n)\<close>.
\<close>

definition writes :: "string \<Rightarrow> inserter" where
  "writes s stream = Inr (put_string s stream)"

definition writes_and_fails :: "string \<Rightarrow> inserter" where
  "writes_and_fails s stream = Inr ((put_string s stream)\<lparr>ss_good := False\<rparr>)"


text \<open>The \<open>operator<<\<close> of the library for \<open>bool\<close> when \<open>boolalpha\<close> is not set.\<close>

definition writes_digit :: "bool \<Rightarrow> inserter" where
  "writes_digit b = writes (if b then ''1'' else ''0'')"

section \<open>The scan computes the substitution\<close>

lemma search_mask_Cons:
  "search ''%?'' (c # cs) =
     (if c = CHR ''%'' \<and> take (Suc 0) cs = ''?'' then Some 0
      else map_option Suc (search ''%?'' cs))"
  by simp

lemma search_mask_Nil: "search ''%?'' [] = None"
  by simp

lemma search_None_substituted:
  "search ''%?'' s = None \<Longrightarrow> substituted esc s ps = s \<and> sites s = 0"
proof (induction s)
  case Nil
  then show ?case by simp
next
  case (Cons c cs)
  from Cons.prems have nomatch: "\<not> (c = CHR ''%'' \<and> take (Suc 0) cs = ''?'')" and rest: "search ''%?'' cs = None"
    by (auto simp only: search_mask_Cons split: if_splits)
  have "take 2 cs \<noteq> ''%?''"
  proof
    assume "take 2 cs = ''%?''"
    then obtain r where "cs = CHR ''%'' # CHR ''?'' # r"
      by (cases cs; cases "tl cs") auto
    with rest show False by simp
  qed
  with nomatch Cons.IH [OF rest] show ?case by auto
qed

lemma take2_mask: "take 2 s = ''%?'' \<longleftrightarrow> (\<exists>r. s = CHR ''%'' # CHR ''?'' # r)"
  by (cases s; cases "tl s") auto

lemma take1_mark: "take (Suc 0) s = ''?'' \<longleftrightarrow> (\<exists>r. s = CHR ''?'' # r)"
  by (cases s) auto

lemma search_mask_zero:
  "search ''%?'' s = Some 0 \<longleftrightarrow> (\<exists>r. s = CHR ''%'' # CHR ''?'' # r)"
  by (cases s) (auto simp add: take1_mark)

lemma search_Some_escaped:
  "search ''%?'' s = Some i \<Longrightarrow> 0 < i \<Longrightarrow> s ! (i - 1) = CHR ''%'' \<Longrightarrow>
   substituted esc s ps = take (i - 1) s @ esc @ substituted esc (drop (i + 2) s) ps
   \<and> sites s = sites (drop (i + 2) s)"
proof (induction s arbitrary: i)
  case Nil
  then show ?case by simp
next
  case (Cons c cs)
  from Cons.prems(1,2) obtain j where j: "i = Suc j" "search ''%?'' cs = Some j"
    and nomatch: "\<not> (c = CHR ''%'' \<and> take (Suc 0) cs = ''?'')"
    by (auto simp only: search_mask_Cons split: if_splits)
  show ?case
  proof (cases j)
    case 0
    with j(2) obtain r where cs: "cs = CHR ''%'' # CHR ''?'' # r"
      by (auto simp only: search_mask_zero)
    from Cons.prems(3) j(1) 0 have "c = CHR ''%''" by simp
    with cs j(1) 0 show ?thesis by simp
  next
    case (Suc m)
    with j(2) have "take 2 cs \<noteq> ''%?''"
      by (auto simp add: take2_mask)
    moreover from Cons.prems(3) j(1) Suc have "cs ! (j - 1) = CHR ''%''" by simp
    ultimately show ?thesis
      using Cons.IH [OF j(2)] nomatch j(1) Suc by auto
  qed
qed

lemma search_Some_site:
  "search ''%?'' s = Some i \<Longrightarrow> i = 0 \<or> s ! (i - 1) \<noteq> CHR ''%'' \<Longrightarrow>
   substituted esc s ps =
     take i s @ (case ps of [] \<Rightarrow> ''?'' | p # qs \<Rightarrow> p) @ substituted esc (drop (i + 2) s) (tl ps)
   \<and> sites s = Suc (sites (drop (i + 2) s))"
proof (induction s arbitrary: i)
  case Nil
  then show ?case by simp
next
  case (Cons c cs)
  show ?case
  proof (cases i)
    case 0
    with Cons.prems(1) obtain r where "c = CHR ''%''" "cs = CHR ''?'' # r"
      by (auto simp only: search_mask_Cons take1_mark split: if_splits)
    with 0 show ?thesis by simp
  next
    case (Suc j)
    with Cons.prems(1) have j: "search ''%?'' cs = Some j"
      and nomatch: "\<not> (c = CHR ''%'' \<and> take (Suc 0) cs = ''?'')"
      by (auto simp only: search_mask_Cons split: if_splits)
    show ?thesis
    proof (cases j)
      case 0
      with j obtain r where cs: "cs = CHR ''%'' # CHR ''?'' # r"
        by (auto simp only: search_mask_zero)
      from Cons.prems(2) Suc 0 have "c \<noteq> CHR ''%''" by simp
      with cs Suc 0 show ?thesis by simp
    next
      case (Suc m)
      with j have "take 2 cs \<noteq> ''%?''"
        by (auto simp add: take2_mask)
      moreover from Cons.prems(2) \<open>i = Suc j\<close> Suc have "j = 0 \<or> cs ! (j - 1) \<noteq> CHR ''%''" by simp
      ultimately show ?thesis
        using Cons.IH [OF j] nomatch \<open>i = Suc j\<close> Suc by auto
    qed
  qed
qed


lemma search_mask_at:
  "search ''%?'' s = Some i \<Longrightarrow> i + 2 \<le> length s \<and> s ! i = CHR ''%'' \<and> s ! (i + 1) = CHR ''?''"
proof (induction s arbitrary: i)
  case Nil
  then show ?case by simp
next
  case (Cons c cs)
  show ?case
  proof (cases i)
    case 0
    with Cons.prems show ?thesis
      by (auto simp only: search_mask_zero) simp_all
  next
    case (Suc j)
    with Cons.prems have "search ''%?'' cs = Some j"
      by (auto simp only: search_mask_Cons split: if_splits)
    from Cons.IH [OF this] Suc show ?thesis by simp
  qed
qed

lemma find_mask:
  "last_pos \<le> length str \<Longrightarrow>
   find str SUBSTITUTE_MASK last_pos =
     map_option (\<lambda>i. last_pos + i) (search ''%?'' (drop last_pos str))"
  by (simp add: find_def SUBSTITUTE_MASK_def)

lemma put_string_ready:
  "ready st \<Longrightarrow> ready (put_string s st) \<and> ss_buf (put_string s st) = ss_buf st @ s"
  by (simp add: ready_def put_string_def overwrite_def padded_def)

lemma put_string_not_good: "\<not> ss_good st \<Longrightarrow> put_string s st = st"
  by (simp add: put_string_def)

lemma put_string_twice:
  "(ready st \<longrightarrow> ready (put_string y (put_string x st))
      \<and> ss_buf (put_string y (put_string x st)) = ss_buf st @ x @ y)
   \<and> (\<not> ss_good st \<longrightarrow> put_string y (put_string x st) = st)"
  using put_string_ready [of st x] put_string_ready [of "put_string x st" y]
  by (simp add: put_string_not_good)

lemma Format_loop_step:
  assumes "Format_loop str pv last_pos k stream
      = Format_loop str pv lp1 k1 (put_string y (put_string x stream))"
    and "\<exists>stream' lp.
      Format_loop str pv lp1 k1 (put_string y (put_string x stream)) = Inr (stream', lp, n)
      \<and> lp \<le> length str
      \<and> (ready (put_string y (put_string x stream)) \<longrightarrow>
           ready stream'
           \<and> ss_buf stream' @ drop lp str = ss_buf (put_string y (put_string x stream)) @ rest)
      \<and> (\<not> ss_good (put_string y (put_string x stream)) \<longrightarrow>
           stream' = put_string y (put_string x stream))"
    and "text = x @ y @ rest"
  shows "\<exists>stream' lp.
      Format_loop str pv last_pos k stream = Inr (stream', lp, n)
      \<and> lp \<le> length str
      \<and> (ready stream \<longrightarrow> ready stream' \<and> ss_buf stream' @ drop lp str = ss_buf stream @ text)
      \<and> (\<not> ss_good stream \<longrightarrow> stream' = stream)"
proof -
  from assms(2) obtain stream' lp where
    run: "Format_loop str pv lp1 k1 (put_string y (put_string x stream)) = Inr (stream', lp, n)"
    and lp: "lp \<le> length str"
    and good: "ready (put_string y (put_string x stream)) \<Longrightarrow>
        ready stream'
        \<and> ss_buf stream' @ drop lp str = ss_buf (put_string y (put_string x stream)) @ rest"
    and bad: "\<not> ss_good (put_string y (put_string x stream)) \<Longrightarrow>
        stream' = put_string y (put_string x stream)"
    by blast
  have "ready stream' \<and> ss_buf stream' @ drop lp str = ss_buf stream @ text" if "ready stream"
    using good put_string_twice [of stream y x] that assms(3) by simp
  moreover have "stream' = stream" if "\<not> ss_good stream"
    using bad put_string_twice [of stream y x] that by simp
  ultimately show ?thesis
    using run lp assms(1) by auto
qed

lemma Format_loop_correct:
  assumes "last_pos \<le> length str"
    and "last_pos = 0 \<or> str ! (last_pos - 1) \<noteq> CHR ''%''"
    and "k \<le> length pv"
  shows "\<exists>stream' lp.
           Format_loop str pv last_pos k stream =
             Inr (stream', lp, min (length pv) (k + sites (drop last_pos str)))
           \<and> lp \<le> length str
           \<and> (ready stream \<longrightarrow>
                ready stream'
                \<and> ss_buf stream' @ drop lp str
                    = ss_buf stream @ substituted ''%?'' (drop last_pos str) (drop k pv))
           \<and> (\<not> ss_good stream \<longrightarrow> stream' = stream)"
  using assms
proof (induction str pv last_pos k stream rule: Format_loop.induct)
  case (1 str pv last_pos k stream)
  let ?s = "drop last_pos str"
  note bound = \<open>last_pos \<le> length str\<close>
  show ?case
  proof (cases "search ''%?'' ?s")
    case None
    with bound have "find str SUBSTITUTE_MASK last_pos = None"
      by (simp add: find_mask)
    then have "Format_loop str pv last_pos k stream = Inr (stream, last_pos, k)"
      by (subst Format_loop.simps [of str pv last_pos k stream]) (simp only: option.simps)
    moreover from search_None_substituted [OF None]
    have "substituted ''%?'' ?s (drop k pv) = ?s" "sites ?s = 0" by simp_all
    ultimately show ?thesis
      using bound \<open>k \<le> length pv\<close> by simp
  next
    case (Some i)
    define pos where "pos = last_pos + i"
    from Some bound have found: "find str SUBSTITUTE_MASK last_pos = Some pos"
      by (simp add: find_mask pos_def)
    from search_mask_at [OF Some] bound
    have in_range: "pos + 2 \<le> length str" and mark: "str ! (pos + 1) = CHR ''?''"
      by (auto simp add: pos_def)
    have rest: "drop (i + 2) ?s = drop (pos + mask_len) str"
      by (simp add: pos_def add.commute add.left_commute mask_len_def SUBSTITUTE_MASK_def)
    have next_inv: "pos + mask_len \<le> length str"
      "pos + mask_len = 0 \<or> str ! (pos + mask_len - 1) \<noteq> CHR ''%''"
      using in_range mark by (simp_all add: mask_len_def SUBSTITUTE_MASK_def)
    have idx: "str ! (pos - 1) = ?s ! (i - 1)" if "0 < i"
    proof -
      from that have "pos - 1 = last_pos + (i - 1)"
        by (simp add: pos_def)
      with bound show ?thesis by simp
    qed
    show ?thesis
    proof (cases "0 < i \<and> ?s ! (i - 1) = CHR ''%''")
      case True
      with idx have before: "str ! (pos - 1) = CHR ''%''" "0 < pos" "last_pos < pos"
        by (simp_all add: pos_def)
      with in_range have scr: "screened str pos = Inr True"
        by (simp add: screened_def at_def size_sub_def)
      from before bound have lit: "substr str last_pos (size_sub (size_sub pos last_pos) 1)
          = Inr (take (i - 1) ?s)"
        by (simp add: substr_def size_sub_def pos_def)
      have step: "Format_loop str pv last_pos k stream
          = Format_loop str pv (pos + mask_len) k
              (put_string SUBSTITUTE_MASK (put_string (take (i - 1) ?s) stream))"
        by (subst Format_loop.simps [of str pv last_pos k stream])
          (simp only: found scr lit option.simps sum.simps bool.simps)
      from search_Some_escaped [OF Some, of "''%?''" "drop k pv"] True rest
      have spec: "substituted ''%?'' ?s (drop k pv)
          = take (i - 1) ?s @ SUBSTITUTE_MASK
            @ substituted ''%?'' (drop (pos + mask_len) str) (drop k pv)"
        and count: "sites ?s = sites (drop (pos + mask_len) str)"
        by (simp_all add: SUBSTITUTE_MASK_def)
      from Format_loop_step [OF step
          "1.IH"(1) [OF found scr refl lit next_inv \<open>k \<le> length pv\<close>] spec] count
      show ?thesis by simp
    next
      case False
      have scr: "screened str pos = Inr False"
      proof (cases "i = 0")
        case True
        with "1.prems"(2) in_range show ?thesis
          by (auto simp add: screened_def at_def size_sub_def pos_def)
      next
        case nonzero: False
        with False idx have "str ! (pos - 1) \<noteq> CHR ''%''"
          by simp
        with in_range show ?thesis
          by (auto simp add: screened_def at_def size_sub_def)
      qed
      from bound have lit: "substr str last_pos (size_sub pos last_pos) = Inr (take i ?s)"
        by (simp add: substr_def size_sub_def pos_def)
      from False have site: "i = 0 \<or> ?s ! (i - 1) \<noteq> CHR ''%''" by auto
      note site_spec = search_Some_site [OF Some site, of "''%?''" "drop k pv"]
      show ?thesis
      proof (cases "k < length pv")
        case True
        then have arg: "drop k pv = pv ! k # drop (k + 1) pv"
          by (simp add: Cons_nth_drop_Suc)
        from True have more: "k + 1 \<le> length pv" by simp
        have step: "Format_loop str pv last_pos k stream
            = Format_loop str pv (pos + mask_len) (k + 1)
                (put_string (pv ! k) (put_string (take i ?s) stream))"
          by (subst Format_loop.simps [of str pv last_pos k stream])
            (simp only: found scr lit option.simps sum.simps bool.simps True if_True)
        from site_spec arg rest
        have spec: "substituted ''%?'' ?s (drop k pv)
            = take i ?s @ pv ! k
              @ substituted ''%?'' (drop (pos + mask_len) str) (drop (k + 1) pv)"
          and count: "sites ?s = Suc (sites (drop (pos + mask_len) str))"
          by simp_all
        from True count
        have n: "min (length pv) (k + 1 + sites (drop (pos + mask_len) str))
            = min (length pv) (k + sites ?s)"
          by simp
        from Format_loop_step [OF step "1.IH"(2) [OF found scr _ lit True next_inv more] spec] n
        show ?thesis by simp
      next
        case False
        with \<open>k \<le> length pv\<close> have arg: "drop k pv = []" "k = length pv" by simp_all
        have step: "Format_loop str pv last_pos k stream
            = Format_loop str pv (pos + mask_len) k
                (put_string ''?'' (put_string (take i ?s) stream))"
          by (subst Format_loop.simps [of str pv last_pos k stream])
            (simp only: found scr lit option.simps sum.simps bool.simps False if_False)
        from site_spec arg rest
        have spec: "substituted ''%?'' ?s (drop k pv)
            = take i ?s @ ''?''
              @ substituted ''%?'' (drop (pos + mask_len) str) (drop k pv)"
          by simp
        from arg
        have n: "min (length pv) (k + sites (drop (pos + mask_len) str))
            = min (length pv) (k + sites ?s)"
          by simp
        from Format_loop_step [OF step
            "1.IH"(3) [OF found scr _ lit False next_inv \<open>k \<le> length pv\<close>] spec] n
        show ?thesis by simp
      qed
    qed
  qed
qed

theorem Format_scan_correct:
  "\<exists>stream'.
     Format_scan str pv stream = Inr (stream', min (length pv) (sites str))
     \<and> (ready stream \<longrightarrow>
          ready stream' \<and> ss_buf stream' = ss_buf stream @ substituted ''%?'' str pv)
     \<and> (\<not> ss_good stream \<longrightarrow> stream' = stream)"
proof -
  from Format_loop_correct [of 0 str 0 pv stream]
  obtain stream1 lp where
    loop: "Format_loop str pv 0 0 stream = Inr (stream1, lp, min (length pv) (sites str))"
    and lp: "lp \<le> length str"
    and good: "ready stream \<Longrightarrow>
        ready stream1 \<and> ss_buf stream1 @ drop lp str = ss_buf stream @ substituted ''%?'' str pv"
    and bad: "\<not> ss_good stream \<Longrightarrow> stream1 = stream"
    by auto
  from loop lp have "Format_scan str pv stream
      = Inr (put_string (drop lp str) stream1, min (length pv) (sites str))"
    by (simp add: Format_scan_def substr_def size_sub_def)
  moreover have "ready (put_string (drop lp str) stream1)
      \<and> ss_buf (put_string (drop lp str) stream1) = ss_buf stream @ substituted ''%?'' str pv"
    if "ready stream"
    using good [OF that] put_string_ready [of stream1 "drop lp str"] by simp
  moreover have "put_string (drop lp str) stream1 = stream" if "\<not> ss_good stream"
    using bad [OF that] that by (simp add: put_string_not_good)
  ultimately show ?thesis by simp
qed

lemma search_Some_sublist:
  assumes "search ''%?'' s = Some i"
  shows "sublist ''%?'' s"
proof -
  from search_mask_at [OF assms]
  have "i + 2 \<le> length s" "s ! i = CHR ''%''" "s ! (i + 1) = CHR ''?''" by simp_all
  then have "s = take i s @ ''%?'' @ drop (i + 2) s"
    by (metis Cons_nth_drop_Suc Suc_eq_plus1 add_2_eq_Suc' add_lessD1 append_Cons append_Nil append_take_drop_id less_add_one linorder_not_le not_less_eq_eq)
  then show ?thesis
    unfolding sublist_def by blast
qed

lemma sublist_search_Some:
  "sublist ''%?'' s \<Longrightarrow> \<exists>i. search ''%?'' s = Some i"
proof (induction s)
  case Nil
  then show ?case by simp
next
  case (Cons c cs)
  show ?case
  proof (cases "c = CHR ''%'' \<and> take (Suc 0) cs = ''?''")
    case True
    then show ?thesis by (simp only: search_mask_Cons if_True) simp
  next
    case False
    with Cons.prems have "sublist ''%?'' cs"
      by (auto simp add: sublist_Cons_right prefix_Cons take1_mark prefix_def)
    from Cons.IH [OF this] False show ?thesis
      by (auto simp only: search_mask_Cons if_False)
  qed
qed

lemma search_None_iff: "search ''%?'' s = None \<longleftrightarrow> \<not> sublist ''%?'' s"
proof
  assume "search ''%?'' s = None"
  with sublist_search_Some [of s] show "\<not> sublist ''%?'' s" by auto
next
  assume "\<not> sublist ''%?'' s"
  with search_Some_sublist [of s] show "search ''%?'' s = None"
    by (cases "search ''%?'' s") auto
qed

lemma substituted_adjust:
  "substituted esc s ps =
     substituted esc s (take (sites s) ps @ replicate (sites s - length ps) ''?'')"
proof (induction esc s ps rule: substituted.induct)
  case (1 esc ps)
  then show ?case by simp
next
  case (2 esc c cs ps)
  then show ?case
    by (cases ps) (auto simp add: replicate_app_Cons_same Suc_diff_le)
qed





lemma placeholders_unescaped:
  "placeholders str = filter (unescaped False str) [0..<length str]"
  unfolding placeholders_def
  by (rule filter_cong) (auto simp add: unescaped_def occurrence_def escaped_def)

lemma filter_upt_Suc:
  "filter P [0..<Suc n] = (if P 0 then [0] else []) @ map Suc (filter (P \<circ> Suc) [0..<n])"
proof -
  have "[0..<Suc n] = 0 # map Suc [0..<n]"
    by (simp add: upt_conv_Cons map_Suc_upt del: upt_Suc)
  then show ?thesis
    by (simp add: filter_map)
qed

lemma unescaped_Suc:
  "unescaped prev (c # cs) (Suc p) = unescaped (c = CHR ''%'') cs p"
  by (cases p) (simp_all add: unescaped_def)

lemma count_Cons:
  "length (filter (unescaped prev (c # cs)) [0..<Suc n]) =
     (if unescaped prev (c # cs) 0 then 1 else 0)
     + length (filter (unescaped (c = CHR ''%'') cs) [0..<n])"
proof -
  have "unescaped prev (c # cs) \<circ> Suc = unescaped (c = CHR ''%'') cs"
    by (rule ext) (simp add: unescaped_Suc)
  then show ?thesis
    by (simp add: filter_upt_Suc del: upt_Suc)
qed

lemma count_after_percent:
  "take 2 s \<noteq> ''%?'' \<Longrightarrow>
   length (filter (unescaped True s) [0..<length s])
     = length (filter (unescaped False s) [0..<length s])"
proof (cases s)
  case Nil
  then show ?thesis by simp
next
  case (Cons c cs)
  assume "take 2 s \<noteq> ''%?''"
  with Cons have "\<not> unescaped True (c # cs) 0" "\<not> unescaped False (c # cs) 0"
    by (simp_all add: unescaped_def)
  with Cons show ?thesis
    by (simp add: count_Cons del: upt_Suc)
qed

lemma sites_count:
  "sites s = length (filter (unescaped False s) [0..<length s])"
proof (induction s rule: sites.induct)
  case 1
  then show ?case by simp
next
  case (2 c cs)
  show ?case
  proof (cases "c = CHR ''%'' \<and> take 2 cs = ''%?''")
    case True
    then obtain r where cs: "cs = CHR ''%'' # CHR ''?'' # r"
      by (auto simp add: take2_mask)
    with True "2.IH"(1) have "sites r = length (filter (unescaped False r) [0..<length r])"
      by simp
    moreover have "\<not> unescaped False (CHR ''%'' # CHR ''%'' # CHR ''?'' # r) 0"
      "\<not> unescaped True (CHR ''%'' # CHR ''?'' # r) 0"
      "\<not> unescaped True (CHR ''?'' # r) 0"
      by (simp_all add: unescaped_def)
    ultimately show ?thesis
      using True cs by (simp add: count_Cons del: upt_Suc)
  next
    case notesc: False
    show ?thesis
    proof (cases "c = CHR ''%'' \<and> take 1 cs = ''?''")
      case True
      then obtain r where cs: "cs = CHR ''?'' # r"
        by (auto simp add: take1_mark)
      with True notesc "2.IH"(2)
      have "sites r = length (filter (unescaped False r) [0..<length r])"
        by simp
      moreover have "unescaped False (CHR ''%'' # CHR ''?'' # r) 0"
        "\<not> unescaped True (CHR ''?'' # r) 0"
        by (simp_all add: unescaped_def)
      ultimately show ?thesis
        using True cs by (simp add: count_Cons del: upt_Suc)
    next
      case False
      with notesc "2.IH"(3)
      have IH: "sites cs = length (filter (unescaped False cs) [0..<length cs])"
        by simp
      from False have first: "\<not> unescaped False (c # cs) 0"
        by (auto simp add: unescaped_def take1_mark)
      show ?thesis
      proof (cases "c = CHR ''%''")
        case True
        with notesc have "take 2 cs \<noteq> ''%?''" by simp
        from count_after_percent [OF this] IH first True False notesc show ?thesis
          by (simp add: count_Cons del: upt_Suc)
      next
        case False
        with IH first notesc show ?thesis
          by (simp add: count_Cons del: upt_Suc)
      qed
    qed
  qed
qed

lemma sites_placeholders: "sites str = length (placeholders str)"
  by (simp add: sites_count placeholders_unescaped)

lemma substituted_escaped:
  "substituted esc (CHR ''%'' # CHR ''%'' # CHR ''?'' # r) ps = esc @ substituted esc r ps"
  "sites (CHR ''%'' # CHR ''%'' # CHR ''?'' # r) = sites r"
  by simp_all

lemma substituted_site:
  "substituted esc (CHR ''%'' # CHR ''?'' # r) ps
     = (case ps of [] \<Rightarrow> ''?'' | p # qs \<Rightarrow> p) @ substituted esc r (tl ps)"
  "sites (CHR ''%'' # CHR ''?'' # r) = Suc (sites r)"
  by simp_all

lemma substituted_literal:
  assumes "\<not> (c = CHR ''%'' \<and> take 2 cs = ''%?'')" "\<not> (c = CHR ''%'' \<and> take (Suc 0) cs = ''?'')"
  shows "substituted esc (c # cs) ps = c # substituted esc cs ps" "sites (c # cs) = sites cs"
  using assms by auto

lemma token_induct [case_names Nil Escaped Site Literal]:
  assumes "P []"
    and "\<And>r. P r \<Longrightarrow> P (CHR ''%'' # CHR ''%'' # CHR ''?'' # r)"
    and "\<And>r. P r \<Longrightarrow> P (CHR ''%'' # CHR ''?'' # r)"
    and "\<And>c cs. P cs \<Longrightarrow> \<not> (c = CHR ''%'' \<and> take 2 cs = ''%?'') \<Longrightarrow>
           \<not> (c = CHR ''%'' \<and> take (Suc 0) cs = ''?'') \<Longrightarrow> P (c # cs)"
  shows "P s"
proof (induction s rule: sites.induct)
  case 1
  show ?case by (rule assms(1))
next
  case (2 c cs)
  show ?case
  proof (cases "c = CHR ''%'' \<and> take 2 cs = ''%?''")
    case True
    then obtain r where cs: "cs = CHR ''%'' # CHR ''?'' # r"
      by (auto simp add: take2_mask)
    with True "2.IH"(1) have "P r" by simp
    from assms(2) [OF this] True cs show ?thesis by simp
  next
    case notesc: False
    show ?thesis
    proof (cases "c = CHR ''%'' \<and> take (Suc 0) cs = ''?''")
      case True
      then obtain r where cs: "cs = CHR ''?'' # r"
        by (auto simp add: take1_mark)
      with True notesc "2.IH"(2) have "P r" by simp
      from assms(3) [OF this] True cs show ?thesis by simp
    next
      case False
      with notesc "2.IH"(3) have "P cs" by simp
      from assms(4) [OF this notesc False] show ?thesis .
    qed
  qed
qed

lemma take2_append_escaped:
  "take 2 (cs @ CHR ''%'' # CHR ''%'' # CHR ''?'' # b) = ''%?'' \<longleftrightarrow> take 2 cs = ''%?''"
  by (cases cs; cases "tl cs") auto

lemma take1_append_percent:
  "take (Suc 0) (cs @ CHR ''%'' # b) = ''?'' \<longleftrightarrow> take (Suc 0) cs = ''?''"
  by (cases cs) auto

lemma append_escaped:
  "substituted esc (a @ CHR ''%'' # CHR ''%'' # CHR ''?'' # b) ps
     = substituted esc a ps @ esc @ substituted esc b (drop (sites a) ps)
   \<and> sites (a @ CHR ''%'' # CHR ''%'' # CHR ''?'' # b) = sites a + sites b"
proof (induction a arbitrary: ps rule: token_induct)
  case Nil
  show ?case by simp
next
  case (Escaped r)
  then show ?case
    by (simp add: substituted_escaped del: substituted.simps sites.simps)
next
  case (Site r)
  from Site [of "tl ps"] show ?case
    by (cases ps) (simp_all add: substituted_site del: substituted.simps sites.simps)
next
  case (Literal c cs)
  let ?s = "CHR ''%'' # CHR ''%'' # CHR ''?'' # b"
  from Literal(2,3)
  have "\<not> (c = CHR ''%'' \<and> take 2 (cs @ ?s) = ''%?'')"
    "\<not> (c = CHR ''%'' \<and> take (Suc 0) (cs @ ?s) = ''?'')"
    using take2_append_escaped [of cs b] take1_append_percent [of cs "CHR ''%'' # CHR ''?'' # b"]
    by blast+
  from substituted_literal [OF this] substituted_literal [OF Literal(2,3)] Literal(1) [of ps]
  show ?case
    by (simp del: substituted.simps sites.simps)
qed

lemma take2_append_site:
  "cs \<noteq> [] \<Longrightarrow> take 2 (cs @ CHR ''%'' # CHR ''?'' # b) = ''%?'' \<longleftrightarrow> take 2 cs = ''%?''"
  by (cases cs; cases "tl cs") auto

lemma append_site:
  "a = [] \<or> last a \<noteq> CHR ''%'' \<Longrightarrow>
   substituted esc (a @ CHR ''%'' # CHR ''?'' # b) ps
     = substituted esc a ps @ (case drop (sites a) ps of [] \<Rightarrow> ''?'' | p # qs \<Rightarrow> p)
       @ substituted esc b (drop (Suc (sites a)) ps)
   \<and> sites (a @ CHR ''%'' # CHR ''?'' # b) = Suc (sites a + sites b)"
proof (induction a arbitrary: ps rule: token_induct)
  case Nil
  show ?case by (cases ps) (simp_all add: drop_Suc)
next
  case (Escaped r)
  from Escaped.prems have "r = [] \<or> last r \<noteq> CHR ''%''"
    by (auto split: if_splits)
  from Escaped.IH [OF this, of ps] show ?case
    by (simp add: substituted_escaped del: substituted.simps sites.simps)
next
  case (Site r)
  from Site.prems have "r = [] \<or> last r \<noteq> CHR ''%''"
    by (auto split: if_splits)
  from Site.IH [OF this, of "tl ps"] show ?case
    by (cases ps) (simp_all add: substituted_site del: substituted.simps sites.simps)
next
  case (Literal c cs)
  let ?s = "CHR ''%'' # CHR ''?'' # b"
  show ?case
  proof (cases "cs = []")
    case True
    with Literal.prems have "c \<noteq> CHR ''%''" by simp
    with True show ?thesis
      by (cases ps) (simp_all add: drop_Suc)
  next
    case False
    with Literal.prems have last: "cs = [] \<or> last cs \<noteq> CHR ''%''" by simp
    from Literal(2,3) False
    have "\<not> (c = CHR ''%'' \<and> take 2 (cs @ ?s) = ''%?'')"
      "\<not> (c = CHR ''%'' \<and> take (Suc 0) (cs @ ?s) = ''?'')"
      using take2_append_site [of cs b] take1_append_percent [of cs "CHR ''?'' # b"]
      by blast+
    from substituted_literal [OF this] substituted_literal [OF Literal(2,3)]
      Literal.IH [OF last, of ps]
    show ?thesis
      by (simp del: substituted.simps sites.simps)
  qed
qed

lemma length_substituted_none:
  "length (substituted ''%?'' s []) \<le> length s"
proof (induction s rule: token_induct)
  case (Literal c cs)
  with substituted_literal(1) [OF Literal(2,3), of "''%?''" "[]"] show ?case
    by (simp del: substituted.simps)
qed simp_all

lemma substituted_none_changes:
  assumes "sublist ''%?'' s"
  shows "substituted ''%?'' s [] \<noteq> s"
proof -
  from assms obtain i where i: "search ''%?'' s = Some i"
    using sublist_search_Some by blast
  from search_mask_at [OF i] have len: "i + 2 \<le> length s" by simp
  have rest: "length (substituted ''%?'' (drop (i + 2) s) []) \<le> length s - (i + 2)"
    using length_substituted_none [of "drop (i + 2) s"] by simp
  have "length (substituted ''%?'' s []) < length s"
  proof (cases "0 < i \<and> s ! (i - 1) = CHR ''%''")
    case True
    with search_Some_escaped [OF i, of "''%?''" "[]"] len rest show ?thesis
      by simp
  next
    case False
    then have "i = 0 \<or> s ! (i - 1) \<noteq> CHR ''%''" by auto
    from search_Some_site [OF i this, of "''%?''" "[]"] len rest show ?thesis
      by simp
  qed
  then show ?thesis by auto
qed

lemma substituted_no_sites:
  "sites s = 0 \<Longrightarrow> substituted ''%%?'' s ps = s"
proof (induction s rule: token_induct)
  case (Literal c cs)
  with substituted_literal [OF Literal(2,3)] show ?case
    by (simp del: substituted.simps sites.simps)
qed simp_all

lemma drop_min_length: "drop (min (length xs) n) xs = drop n xs"
  by (cases "n \<le> length xs") (simp_all add: min_def)

lemma escaped_at_append:
  "escaped (a @ ''%?'' @ b) (length a) \<longleftrightarrow> a \<noteq> [] \<and> last a = CHR ''%''"
  by (cases a rule: rev_cases) (simp_all add: escaped_def occurrence_def nth_append)

section \<open>Rendering on the stream\<close>

lemma resolve_cases:
  "resolve (Bool b) = Some Ov_bool"
  "resolve (BasicString s) = Some Ov_string"
  "resolve (StdPair x y ins) = Some Ov_pair"
  "resolve (Object None None) = Some Ov_ellipsis"
  "resolve (Object (Some f) None) = Some Ov_stream"
  "resolve (Object None (Some c)) = Some Ov_iter"
  "resolve (Object (Some f) (Some c)) = None"
  by (cases ins; simp add: resolve_def candidates_def overloads_def)+

lemma priority_rule_cases:
  "priority_rule (Bool b) = Ov_bool"
  "priority_rule (BasicString s) = Ov_string"
  "priority_rule (StdPair x y ins) = Ov_pair"
  "priority_rule (Object None None) = Ov_ellipsis"
  "priority_rule (Object (Some f) None) = Ov_stream"
  "priority_rule (Object None (Some c)) = Ov_iter"
  "priority_rule (Object (Some f) (Some c)) = Ov_stream"
  by (cases ins; simp add: priority_rule_def priority_order_def)+

lemma put_string_with_text:
  "ss_good st \<Longrightarrow> ss_width st = 0 \<Longrightarrow> put_string s (with_text st b) = with_text st (b @ s)"
  by (cases st) (simp add: put_string_def overwrite_def padded_def with_text_def)

lemma with_text_twice: "with_text (with_text st a) b = with_text st b"
  by (simp add: with_text_def)

lemma with_text_fields:
  "ss_good (with_text st b) = ss_good st" "ss_width (with_text st b) = ss_width st"
  "ss_buf (with_text st b) = b"
  by (simp_all add: with_text_def)

lemma with_text_self: "ss_pos st = length (ss_buf st) \<Longrightarrow> with_text st (ss_buf st) = st"
  by (cases st) (simp add: with_text_def)

lemma renders_simple:
  assumes "ss_good st" "ss_width st = 0"
  shows "renders st (Bool b) (if b then ''true'' else ''false'')"
    and "renders st (BasicString s) s"
    and "renders st (Object None None) ''?''"
    and "renders st (Object (Some (writes s)) None) s"
  using assms by (simp_all add: renders_def resolve_cases put_string_with_text writes_def)



lemma GetOutputParameters_result:
  "GetOutputParameters stream args = Inr (pv, stream') \<Longrightarrow>
   args \<noteq> [] \<and> length pv = length args \<and> ss_buf stream' = [] \<and> ss_pos stream' = 0"
proof (induction stream args arbitrary: pv stream' rule: GetOutputParameters.induct)
  case (1 stream)
  then show ?case by simp
next
  case (2 stream t)
  then show ?case
    by (auto simp add: str_clear_def split: sum.splits)
next
  case (3 stream t u args)
  from "3.prems" obtain stream1 ps where
    "OutputValue stream t = Inr stream1"
    "GetOutputParameters (str_clear stream1) (u # args) = Inr (ps, stream')"
    "pv = ss_buf stream1 # ps"
    by (auto split: sum.splits)
  with "3.IH" [of stream1 ps stream'] show ?case by simp
qed

lemma Format_returns:
  assumes "GetOutputParameters (AssignStreamSettings fm) args = Inr (pv, stream)"
  shows "\<exists>result. Format fm str args = Inr result"
  using assms GetOutputParameters_result [OF assms] Format_scan_correct [of str pv stream]
  by (auto simp add: Format_def Format_general_def)

lemma Format_rendered:
  assumes "GetOutputParameters (AssignStreamSettings fm) args = Inr (pv, stream)"
    and "ss_good stream" "ss_width stream = 0"
  shows "Format fm str args = Inr (substituted ''%?'' str pv)"
proof -
  from GetOutputParameters_result [OF assms(1)] assms(2,3)
  have "args \<noteq> []" "ready stream" "ss_buf stream = []"
    by (simp_all add: ready_def)
  with assms(1) Format_scan_correct [of str pv stream] show ?thesis
    by (auto simp add: Format_def Format_general_def)
qed

lemma Format_failed_stream:
  assumes "GetOutputParameters (AssignStreamSettings fm) args = Inr (pv, stream)"
    and "\<not> ss_good stream"
  shows "Format fm str args = Inr []"
proof -
  from GetOutputParameters_result [OF assms(1)]
  have "args \<noteq> []" "ss_buf stream = []"
    by simp_all
  with assms Format_scan_correct [of str pv stream] show ?thesis
    by (auto simp add: Format_def Format_general_def)
qed

lemma Format_scan_ready:
  assumes "ss_good stream" "ss_width stream = 0" "ss_buf stream = []" "ss_pos stream = 0"
  shows "\<exists>s. Format_scan str pv stream = Inr (s, min (length pv) (sites str))
     \<and> ss_buf s = substituted ''%?'' str pv"
  using assms Format_scan_correct [of str pv stream]
  by (auto simp add: ready_def)

section \<open>Calls on concrete arguments\<close>

text \<open>
  What \<open>GetOutputParameters\<close> returns for arguments with the \<open>operator<<\<close> of the
  examples, and the state of the stream that \<open>Format\<close> starts with.
\<close>

lemma rendered_writes:
  "GetOutputParameters (AssignStreamSettings fm) [Object (Some (writes p)) None]
     = Inr ([p], AssignStreamSettings fm)"
  "GetOutputParameters (AssignStreamSettings fm)
       [Object (Some (writes p)) None, Object (Some (writes q)) None]
     = Inr ([p, q], AssignStreamSettings fm)"
  "GetOutputParameters (AssignStreamSettings fm)
       [Object (Some (writes p)) None, Object (Some (writes q)) None,
        Object (Some (writes r)) None]
     = Inr ([p, q, r], AssignStreamSettings fm)"
  by (simp_all add: resolve_cases writes_def put_string_def overwrite_def padded_def
      str_clear_def AssignStreamSettings_def)

lemma rendered_fails:
  "GetOutputParameters (AssignStreamSettings fm) [Object (Some (writes_and_fails p)) None]
     = Inr ([p], (AssignStreamSettings fm)\<lparr>ss_good := False\<rparr>)"
  "GetOutputParameters (AssignStreamSettings fm)
       [Object (Some (writes p)) None, Object (Some (writes_and_fails q)) None]
     = Inr ([p, q], (AssignStreamSettings fm)\<lparr>ss_good := False\<rparr>)"
  by (simp_all add: resolve_cases writes_def writes_and_fails_def put_string_def overwrite_def
      padded_def str_clear_def AssignStreamSettings_def)


lemma stream_fields:
  "ss_good (AssignStreamSettings fm)" "ss_width (AssignStreamSettings fm) = 0"
  "ss_buf (AssignStreamSettings fm) = []" "ss_pos (AssignStreamSettings fm) = 0"
  by (simp_all add: AssignStreamSettings_def)

lemma renders_start:
  assumes "renders st x r" "ss_buf st = []" "ss_pos st = 0"
  shows "OutputValue st x = Inr (with_text st r)"
proof -
  from assms(2,3) have "with_text st [] = st"
    using with_text_self [of st] by simp
  with assms(1) [unfolded renders_def, rule_format, of "[]"] show ?thesis
    by simp
qed

lemma Format_scan_append_escaped:
  assumes "ss_good stream" "ss_width stream = 0" "ss_buf stream = []" "ss_pos stream = 0"
  shows "\<exists>sa ka sb kb s.
     Format_scan a pv stream = Inr (sa, ka)
     \<and> Format_scan b (drop ka pv) stream = Inr (sb, kb)
     \<and> Format_scan (a @ ''%%?'' @ b) pv stream = Inr (s, ka + kb)
     \<and> ss_buf s = ss_buf sa @ ''%?'' @ ss_buf sb"
proof -
  define ka where "ka = min (length pv) (sites a)"
  define kb where "kb = min (length (drop ka pv)) (sites b)"
  from Format_scan_ready [OF assms, of a pv]
  obtain sa where sa: "Format_scan a pv stream = Inr (sa, ka)"
    "ss_buf sa = substituted ''%?'' a pv"
    unfolding ka_def by blast
  from Format_scan_ready [OF assms, of b "drop ka pv"]
  obtain sb where sb: "Format_scan b (drop ka pv) stream = Inr (sb, kb)"
    "ss_buf sb = substituted ''%?'' b (drop ka pv)"
    unfolding kb_def by blast
  from Format_scan_ready [OF assms, of "a @ ''%%?'' @ b" pv]
  obtain s where s: "Format_scan (a @ ''%%?'' @ b) pv stream
      = Inr (s, min (length pv) (sites (a @ ''%%?'' @ b)))"
    "ss_buf s = substituted ''%?'' (a @ ''%%?'' @ b) pv"
    by blast
  have d: "drop ka pv = drop (sites a) pv"
    unfolding ka_def by (rule drop_min_length)
  have n: "min (length pv) (sites a + sites b) = ka + kb"
    unfolding ka_def kb_def by ((simp only: length_drop)?; arith?)
  from append_escaped [of "''%?''" a b pv] n
  have k: "min (length pv) (sites (a @ ''%%?'' @ b)) = ka + kb"
    by simp
  from append_escaped [of "''%?''" a b pv] s(2) sa(2) sb(2) d
  have t: "ss_buf s = ss_buf sa @ ''%?'' @ ss_buf sb"
    by simp
  from sa(1) sb(1) s(1) k t show ?thesis
    by (intro exI [of _ sa] exI [of _ ka] exI [of _ sb] exI [of _ kb] exI [of _ s]) simp
qed

lemma Format_scan_append_site:
  assumes "ss_good stream" "ss_width stream = 0" "ss_buf stream = []" "ss_pos stream = 0"
    and "a = [] \<or> last a \<noteq> CHR ''%''"
  shows "\<exists>sa ka sb kb s.
     Format_scan a pv stream = Inr (sa, ka)
     \<and> Format_scan b (drop (Suc ka) pv) stream = Inr (sb, kb)
     \<and> Format_scan (a @ ''%?'' @ b) pv stream =
         Inr (s, (if ka < length pv then Suc ka else ka) + kb)
     \<and> ss_buf s = ss_buf sa @ (if ka < length pv then pv ! ka else ''?'') @ ss_buf sb"
proof -
  define ka where "ka = min (length pv) (sites a)"
  define kb where "kb = min (length (drop (Suc ka) pv)) (sites b)"
  from Format_scan_ready [OF assms(1-4), of a pv]
  obtain sa where sa: "Format_scan a pv stream = Inr (sa, ka)"
    "ss_buf sa = substituted ''%?'' a pv"
    unfolding ka_def by blast
  from Format_scan_ready [OF assms(1-4), of b "drop (Suc ka) pv"]
  obtain sb where sb: "Format_scan b (drop (Suc ka) pv) stream = Inr (sb, kb)"
    "ss_buf sb = substituted ''%?'' b (drop (Suc ka) pv)"
    unfolding kb_def by blast
  from Format_scan_ready [OF assms(1-4), of "a @ ''%?'' @ b" pv]
  obtain s where s: "Format_scan (a @ ''%?'' @ b) pv stream
      = Inr (s, min (length pv) (sites (a @ ''%?'' @ b)))"
    "ss_buf s = substituted ''%?'' (a @ ''%?'' @ b) pv"
    by blast
  note ap = append_site [OF assms(5), of "''%?''" b pv]
  have d: "drop (Suc ka) pv = drop (Suc (sites a)) pv"
    unfolding ka_def by (cases "sites a < length pv") simp_all
  have h: "(case drop (sites a) pv of [] \<Rightarrow> ''?'' | p # qs \<Rightarrow> p)
      = (if ka < length pv then pv ! ka else ''?'')"
  proof (cases "sites a < length pv")
    case True
    then have "drop (sites a) pv = pv ! sites a # drop (Suc (sites a)) pv"
      by (simp add: Cons_nth_drop_Suc)
    with True show ?thesis by (simp add: ka_def)
  next
    case False
    then show ?thesis by (simp add: ka_def)
  qed
  have n: "min (length pv) (Suc (sites a + sites b))
      = (if ka < length pv then Suc ka else ka) + kb"
    unfolding ka_def kb_def by ((simp only: length_drop)?; arith?)
  from ap n have k: "min (length pv) (sites (a @ ''%?'' @ b))
      = (if ka < length pv then Suc ka else ka) + kb"
    by simp
  from ap s(2) sa(2) sb(2) d h
  have t: "ss_buf s = ss_buf sa @ (if ka < length pv then pv ! ka else ''?'') @ ss_buf sb"
    by simp
  from sa(1) sb(1) s(1) k t show ?thesis
    by (intro exI [of _ sa] exI [of _ ka] exI [of _ sb] exI [of _ kb] exI [of _ s]) simp
qed


section \<open>Substitution of the arguments\<close>

text \<open>
  C1, as amended. The template has exactly as many non-escaped occurrences of \<open>%?\<close>
  as the call has arguments, and rendering the arguments leaves the stream good with
  field width 0 (\<open>pv\<close> are the rendered strings, \<open>stream\<close> is the stream after the
  last of them). Then \<open>Format\<close> returns the template with the i-th non-escaped
  occurrence, from left to right, replaced by the rendered string of argument i. With at
  least one argument every escaped occurrence \<open>%%?\<close> is emitted as \<open>%?\<close> and all
  other text is unchanged; with no argument the template is returned unchanged.
\<close>

theorem Format_exact_arity:
  assumes "length (placeholders str) = length args"
    and "args \<noteq> [] \<Longrightarrow>
      GetOutputParameters (AssignStreamSettings fm) args = Inr (pv, stream)
      \<and> ss_good stream \<and> ss_width stream = 0"
  shows "Format fm str args = Inr (substituted (if args = [] then ''%%?'' else ''%?'') str pv)"
proof (cases "args = []")
  case True
  with assms(1) have "sites str = 0"
    by (simp add: sites_placeholders)
  with True show ?thesis
    by (simp add: Format_def Format_noargs_def substituted_no_sites)
next
  case False
  with assms(2) Format_rendered [of fm args pv stream str] show ?thesis by simp
qed

text \<open>The first example of the header: \<open>Format("Number: %?, string: %?", 100.1, "abc")\<close>.\<close>

theorem Format_exact_arity_witness:
  "length (placeholders ''Number: %?, string: %?'')
     = length [Object (Some (writes ''100.1'')) None, Object (Some (writes ''abc'')) None]
   \<and> GetOutputParameters (AssignStreamSettings (Formatter_default (Locale ''C'')))
       [Object (Some (writes ''100.1'')) None, Object (Some (writes ''abc'')) None]
     = Inr ([''100.1'', ''abc''], AssignStreamSettings (Formatter_default (Locale ''C'')))
   \<and> Format (Formatter_default (Locale ''C'')) ''Number: %?, string: %?''
       [Object (Some (writes ''100.1'')) None, Object (Some (writes ''abc'')) None]
     = Inr ''Number: 100.1, string: abc''"
proof -
  have n: "length (placeholders ''Number: %?, string: %?'')
      = length [Object (Some (writes ''100.1'')) None, Object (Some (writes ''abc'')) None]"
    by code_simp
  have r: "GetOutputParameters (AssignStreamSettings (Formatter_default (Locale ''C'')))
        [Object (Some (writes ''100.1'')) None, Object (Some (writes ''abc'')) None]
      = Inr ([''100.1'', ''abc''], AssignStreamSettings (Formatter_default (Locale ''C'')))
      \<and> ss_good (AssignStreamSettings (Formatter_default (Locale ''C'')))
      \<and> ss_width (AssignStreamSettings (Formatter_default (Locale ''C''))) = 0"
    by (intro conjI rendered_writes stream_fields)
  from Format_exact_arity [OF n r] n r show ?thesis by simp
qed

text \<open>
  C1 as stated fails in two ways. For the template \<open>%%? %?\<close> and one argument the
  result is \<open>%? 1\<close>: text other than the occurrence has changed. And for the template
  \<open><%?>\<close> and one argument whose \<open>operator<<\<close> writes \<open>F\<close> and sets \<open>failbit\<close>, the
  scan writes on the failed stream: the result is empty, not \<open><F>\<close>.
\<close>

theorem Format_exact_arity_counterexample:
  "placeholders ''%%? %?'' = [4]
   \<and> GetOutputParameters (AssignStreamSettings (Formatter_default (Locale ''C'')))
       [Object (Some (writes ''1'')) None]
     = Inr ([''1''], AssignStreamSettings (Formatter_default (Locale ''C'')))
   \<and> Format (Formatter_default (Locale ''C'')) ''%%? %?'' [Object (Some (writes ''1'')) None]
       = Inr ''%? 1''
   \<and> substituted ''%%?'' ''%%? %?'' [''1''] = ''%%? 1''
   \<and> placeholders ''<%?>'' = [1]
   \<and> GetOutputParameters (AssignStreamSettings (Formatter_default (Locale ''C'')))
       [Object (Some (writes_and_fails ''F'')) None]
     = Inr ([''F''], (AssignStreamSettings (Formatter_default (Locale ''C'')))\<lparr>ss_good := False\<rparr>)
   \<and> Format (Formatter_default (Locale ''C'')) ''<%?>''
       [Object (Some (writes_and_fails ''F'')) None] = Inr []
   \<and> substituted ''%%?'' ''<%?>'' [''F''] = ''<F>''"
proof -
  have "placeholders ''%%? %?'' = [4]" "placeholders ''<%?>'' = [1]" by code_simp+
  moreover have "substituted ''%%?'' ''%%? %?'' [''1''] = ''%%? 1''"
    "substituted ''%%?'' ''<%?>'' [''F''] = ''<F>''"
    by simp_all
  moreover note rendered_writes(1) [of "Formatter_default (Locale ''C'')" "''1''"]
    rendered_fails(1) [of "Formatter_default (Locale ''C'')" "''F''"]
  moreover from Format_rendered [OF rendered_writes(1), where str = "''%%? %?''"
      and fm = "Formatter_default (Locale ''C'')" and p1 = "''1''"]
  have "Format (Formatter_default (Locale ''C'')) ''%%? %?'' [Object (Some (writes ''1'')) None]
      = Inr ''%? 1''"
    by (simp add: stream_fields)
  moreover from Format_failed_stream [OF rendered_fails(1), where str = "''<%?>''"
      and fm = "Formatter_default (Locale ''C'')" and p1 = "''F''"]
  have "Format (Formatter_default (Locale ''C'')) ''<%?>''
       [Object (Some (writes_and_fails ''F'')) None] = Inr []"
    by simp
  ultimately show ?thesis
    by blast
qed

text \<open>
  C2, as amended. A call with at least one argument, whose arguments all render,
  returns a string whatever the number of occurrences. When rendering leaves the stream
  good with field width 0, the result is the substitution of the first arguments, as
  many as there are non-escaped occurrences, followed by the marker \<open>?\<close> for each
  occurrence beyond the last argument: an argument too many is rendered and not
  inserted. A call with no argument returns the template unchanged.
\<close>

theorem Format_arity_mismatch:
  assumes "GetOutputParameters (AssignStreamSettings fm) args = Inr (pv, stream)"
  shows "(\<exists>result. Format fm str args = Inr result)
   \<and> (ss_good stream \<and> ss_width stream = 0 \<longrightarrow>
        Format fm str args =
          Inr (substituted ''%?'' str
            (take (length (placeholders str)) pv
             @ replicate (length (placeholders str) - length pv) ''?'')))
   \<and> Format fm str [] = Inr str"
proof -
  have "Format fm str [] = Inr str"
    by (simp add: Format_def Format_noargs_def)
  with Format_returns [OF assms, of str] Format_rendered [OF assms, of str]
    substituted_adjust [of "''%?''" str pv]
  show ?thesis
    by (simp add: sites_placeholders)
qed

text \<open>The two examples of the specification: \<open>Format("%?, %?, %?", 1)\<close> and \<open>Format("%?", 1, 2, 3)\<close>.\<close>

theorem Format_arity_mismatch_witness:
  "GetOutputParameters (AssignStreamSettings (Formatter_default (Locale ''C'')))
       [Object (Some (writes ''1'')) None]
     = Inr ([''1''], AssignStreamSettings (Formatter_default (Locale ''C'')))
   \<and> GetOutputParameters (AssignStreamSettings (Formatter_default (Locale ''C'')))
       [Object (Some (writes ''1'')) None, Object (Some (writes ''2'')) None,
        Object (Some (writes ''3'')) None]
     = Inr ([''1'', ''2'', ''3''], AssignStreamSettings (Formatter_default (Locale ''C'')))
   \<and> ss_good (AssignStreamSettings (Formatter_default (Locale ''C'')))
   \<and> ss_width (AssignStreamSettings (Formatter_default (Locale ''C''))) = 0
   \<and> Format (Formatter_default (Locale ''C'')) ''%?, %?, %?'' [Object (Some (writes ''1'')) None]
     = Inr ''1, ?, ?''
   \<and> Format (Formatter_default (Locale ''C'')) ''%?''
       [Object (Some (writes ''1'')) None, Object (Some (writes ''2'')) None,
        Object (Some (writes ''3'')) None]
     = Inr ''1''"
proof -
  note r1 = rendered_writes(1) [of "Formatter_default (Locale ''C'')" "''1''"]
  note r3 = rendered_writes(3) [of "Formatter_default (Locale ''C'')" "''1''" "''2''" "''3''"]
  note g = stream_fields(1) [of "Formatter_default (Locale ''C'')"]
  note w = stream_fields(2) [of "Formatter_default (Locale ''C'')"]
  have p1: "placeholders ''%?, %?, %?'' = [0, 4, 8]" by code_simp
  have p3: "placeholders ''%?'' = [0]" by code_simp
  from Format_arity_mismatch [OF r1, of "''%?, %?, %?''"] p1 g w
  have a: "Format (Formatter_default (Locale ''C'')) ''%?, %?, %?''
      [Object (Some (writes ''1'')) None] = Inr ''1, ?, ?''"
    by simp
  from Format_arity_mismatch [OF r3, of "''%?''"] p3 g w
  have b: "Format (Formatter_default (Locale ''C'')) ''%?''
       [Object (Some (writes ''1'')) None, Object (Some (writes ''2'')) None,
        Object (Some (writes ''3'')) None]
     = Inr ''1''"
    by simp
  from r1 r3 g w a b show ?thesis by (intro conjI)
qed

text \<open>
  C2 as stated fails in two ways. The call \<open>Format("%?")\<close> has no argument and returns
  \<open>%?\<close>: the occurrence is not replaced by \<open>?\<close>. And in \<open>Format("%?, %?", x)\<close>, where
  the \<open>operator<<\<close> of \<open>x\<close> writes \<open>1\<close> and sets \<open>failbit\<close>, the result is empty, not
  \<open>1, ?\<close>.
\<close>

theorem Format_arity_mismatch_counterexample:
  "placeholders ''%?'' = [0]
   \<and> Format (Formatter_default (Locale ''C'')) ''%?'' [] = Inr ''%?''
   \<and> Format (Formatter_default (Locale ''C'')) ''%?'' [] \<noteq> Inr ''?''
   \<and> placeholders ''%?, %?'' = [0, 4]
   \<and> GetOutputParameters (AssignStreamSettings (Formatter_default (Locale ''C'')))
       [Object (Some (writes_and_fails ''1'')) None]
     = Inr ([''1''], (AssignStreamSettings (Formatter_default (Locale ''C'')))\<lparr>ss_good := False\<rparr>)
   \<and> Format (Formatter_default (Locale ''C'')) ''%?, %?''
       [Object (Some (writes_and_fails ''1'')) None] = Inr []
   \<and> Format (Formatter_default (Locale ''C'')) ''%?, %?''
       [Object (Some (writes_and_fails ''1'')) None] \<noteq> Inr ''1, ?''"
proof -
  have "placeholders ''%?'' = [0]" "placeholders ''%?, %?'' = [0, 4]" by code_simp+
  moreover have zero: "Format (Formatter_default (Locale ''C'')) ''%?'' [] = Inr ''%?''"
    by (simp add: Format_def Format_noargs_def)
  moreover from zero have "Format (Formatter_default (Locale ''C'')) ''%?'' [] \<noteq> Inr ''?''"
    by simp
  moreover note rendered_fails(1) [of "Formatter_default (Locale ''C'')" "''1''"]
  moreover from Format_failed_stream [OF rendered_fails(1), where str = "''%?, %?''"
      and fm = "Formatter_default (Locale ''C'')" and p1 = "''1''"]
  have failed: "Format (Formatter_default (Locale ''C'')) ''%?, %?''
       [Object (Some (writes_and_fails ''1'')) None] = Inr []"
    by simp
  moreover from failed have "Format (Formatter_default (Locale ''C'')) ''%?, %?''
       [Object (Some (writes_and_fails ''1'')) None] \<noteq> Inr ''1, ?''"
    by simp
  ultimately show ?thesis
    by blast
qed

section \<open>Escaped occurrences\<close>

text \<open>
  C3, as amended. In a call with at least one argument whose rendering leaves the stream
  good with field width 0, an occurrence of \<open>%?\<close> that follows the escape character
  \<open>%\<close> is emitted as \<open>%?\<close>, the escape character being consumed: the result for
  \<open>a @ ''%%?'' @ b\<close> is the text built for \<open>a\<close>, then \<open>%?\<close>, then the text built for
  \<open>b\<close> with the arguments that \<open>a\<close> has not consumed. The occurrence consumes no
  argument and the scan continues after it.
\<close>

theorem Format_escaped_occurrence:
  assumes "GetOutputParameters (AssignStreamSettings fm) args = Inr (pv, stream)"
    and "ss_good stream" "ss_width stream = 0"
  shows "\<exists>sa ka sb kb s.
     Format_scan a pv stream = Inr (sa, ka)
     \<and> Format_scan b (drop ka pv) stream = Inr (sb, kb)
     \<and> Format_scan (a @ ''%%?'' @ b) pv stream = Inr (s, ka + kb)
     \<and> ss_buf s = ss_buf sa @ ''%?'' @ ss_buf sb
     \<and> Format fm (a @ ''%%?'' @ b) args = Inr (ss_buf sa @ ''%?'' @ ss_buf sb)"
proof -
  from GetOutputParameters_result [OF assms(1)]
  have nonempty: "args \<noteq> []" and empty: "ss_buf stream = []" "ss_pos stream = 0"
    by simp_all
  from Format_scan_append_escaped [OF assms(2,3) empty, of a pv b]
  obtain sa ka sb kb s where
    parts: "Format_scan a pv stream = Inr (sa, ka)"
      "Format_scan b (drop ka pv) stream = Inr (sb, kb)"
    and whole: "Format_scan (a @ ''%%?'' @ b) pv stream = Inr (s, ka + kb)"
      "ss_buf s = ss_buf sa @ ''%?'' @ ss_buf sb"
    by blast
  from whole nonempty assms(1)
  have "Format fm (a @ ''%%?'' @ b) args = Inr (ss_buf sa @ ''%?'' @ ss_buf sb)"
    by (simp add: Format_def Format_general_def)
  with parts whole show ?thesis by blast
qed

theorem Format_escaped_occurrence_witness:
  "GetOutputParameters (AssignStreamSettings (Formatter_default (Locale ''C'')))
       [Object (Some (writes ''7'')) None]
     = Inr ([''7''], AssignStreamSettings (Formatter_default (Locale ''C'')))
   \<and> ss_good (AssignStreamSettings (Formatter_default (Locale ''C'')))
   \<and> ss_width (AssignStreamSettings (Formatter_default (Locale ''C''))) = 0
   \<and> Format (Formatter_default (Locale ''C'')) ''100%%? of %?''
       [Object (Some (writes ''7'')) None] = Inr ''100%? of 7''"
proof -
  note r = rendered_writes(1) [of "Formatter_default (Locale ''C'')" "''7''"]
  note g = stream_fields(1) [of "Formatter_default (Locale ''C'')"]
  note w = stream_fields(2) [of "Formatter_default (Locale ''C'')"]
  note e = stream_fields(3,4) [of "Formatter_default (Locale ''C'')"]
  from Format_scan_ready [OF g w e, of "''100''" "[''7'']"]
  obtain sa where a: "Format_scan ''100'' [''7''] (AssignStreamSettings (Formatter_default (Locale ''C'')))
      = Inr (sa, 0)" "ss_buf sa = ''100''"
    by auto
  from Format_scan_ready [OF g w e, of "'' of %?''" "[''7'']"]
  obtain sb where b: "Format_scan '' of %?'' [''7''] (AssignStreamSettings (Formatter_default (Locale ''C'')))
      = Inr (sb, 1)" "ss_buf sb = '' of 7''"
    by auto
  from Format_escaped_occurrence [OF r g w, of "''100''" "'' of %?''"] a b
  have "Format (Formatter_default (Locale ''C'')) ''100%%? of %?''
       [Object (Some (writes ''7'')) None] = Inr ''100%? of 7''"
    by auto
  with r g w show ?thesis by blast
qed

text \<open>
  C3 as stated fails at its own example: the call \<open>Format("100%%?")\<close> has no argument
  and returns the template with both \<open>%\<close> characters. With one argument whose
  \<open>operator<<\<close> sets \<open>failbit\<close> the result is empty.
\<close>

theorem Format_escaped_occurrence_counterexample:
  "Format (Formatter_default (Locale ''C'')) ''100%%?'' [] = Inr ''100%%?''
   \<and> Format (Formatter_default (Locale ''C'')) ''100%%?'' [] \<noteq> Inr ''100%?''
   \<and> GetOutputParameters (AssignStreamSettings (Formatter_default (Locale ''C'')))
       [Object (Some (writes_and_fails ''7'')) None]
     = Inr ([''7''], (AssignStreamSettings (Formatter_default (Locale ''C'')))\<lparr>ss_good := False\<rparr>)
   \<and> Format (Formatter_default (Locale ''C'')) ''100%%?''
       [Object (Some (writes_and_fails ''7'')) None] = Inr []
   \<and> Format (Formatter_default (Locale ''C'')) ''100%%?''
       [Object (Some (writes_and_fails ''7'')) None] \<noteq> Inr ''100%?''"
proof -
  have zero: "Format (Formatter_default (Locale ''C'')) ''100%%?'' [] = Inr ''100%%?''"
    by (simp add: Format_def Format_noargs_def)
  moreover from zero
  have "Format (Formatter_default (Locale ''C'')) ''100%%?'' [] \<noteq> Inr ''100%?''"
    by simp
  moreover note r = rendered_fails(1) [of "Formatter_default (Locale ''C'')" "''7''"]
  moreover from Format_failed_stream [OF r, of "''100%%?''"]
  have failed: "Format (Formatter_default (Locale ''C'')) ''100%%?''
       [Object (Some (writes_and_fails ''7'')) None] = Inr []"
    by simp
  moreover from failed have "Format (Formatter_default (Locale ''C'')) ''100%%?''
       [Object (Some (writes_and_fails ''7'')) None] \<noteq> Inr ''100%?''"
    by simp
  ultimately show ?thesis by blast
qed

text \<open>
  C10, as amended. In a call with at least one argument whose rendering leaves the
  stream good with field width 0, the occurrence of \<open>%?\<close> at position \<open>length a\<close> of
  \<open>a @ ''%?'' @ b\<close> is treated as escaped exactly when it does not start at position 0
  and the one character before it is \<open>%\<close>. Treated as escaped: the result of
  \<open>Format\<close> is the text built for \<open>a\<close> without its last character, then \<open>%?\<close>, then
  the text built for \<open>b\<close>, and no argument is consumed at the occurrence. Otherwise
  the next argument (or \<open>?\<close>) is substituted. So \<open>%%%?\<close> gives \<open>%%?\<close> and consumes no
  argument, and an occurrence at the start of the template is replaced by the first
  argument.
\<close>

theorem escape_rule:
  assumes "GetOutputParameters (AssignStreamSettings fm) args = Inr (pv, stream)"
    and "ss_good stream" "ss_width stream = 0"
  shows "(escaped (a @ ''%?'' @ b) (length a) \<longleftrightarrow> a \<noteq> [] \<and> last a = CHR ''%'')
   \<and> (escaped (a @ ''%?'' @ b) (length a) \<longrightarrow>
        (\<exists>sa ka sb kb s.
           Format_scan (butlast a) pv stream = Inr (sa, ka)
           \<and> Format_scan b (drop ka pv) stream = Inr (sb, kb)
           \<and> Format_scan (a @ ''%?'' @ b) pv stream = Inr (s, ka + kb)
           \<and> Format fm (a @ ''%?'' @ b) args = Inr (ss_buf sa @ ''%?'' @ ss_buf sb)))
   \<and> (\<not> escaped (a @ ''%?'' @ b) (length a) \<longrightarrow>
        (\<exists>sa ka sb kb s.
           Format_scan a pv stream = Inr (sa, ka)
           \<and> Format_scan b (drop (Suc ka) pv) stream = Inr (sb, kb)
           \<and> Format_scan (a @ ''%?'' @ b) pv stream =
               Inr (s, (if ka < length pv then Suc ka else ka) + kb)
           \<and> Format fm (a @ ''%?'' @ b) args =
               Inr (ss_buf sa @ (if ka < length pv then pv ! ka else ''?'') @ ss_buf sb)))
   \<and> Format fm ''%%%?'' args = Inr ''%%?''
   \<and> (\<exists>s. Format_scan ''%%%?'' pv stream = Inr (s, 0))
   \<and> (\<exists>sb kb. Format_scan b (tl pv) stream = Inr (sb, kb)
        \<and> Format fm (''%?'' @ b) args = Inr (hd pv @ ss_buf sb))"
proof -
  from GetOutputParameters_result [OF assms(1)]
  have nonempty: "args \<noteq> []" "pv \<noteq> []" and empty: "ss_buf stream = []" "ss_pos stream = 0"
    by auto
  note ready = assms(2,3) empty
  have result: "Format fm t args = Inr (ss_buf s)" if "Format_scan t pv stream = Inr (s, k)"
    for t s k
    using that nonempty assms(1) by (simp add: Format_def Format_general_def)
  have esc: "escaped (a @ ''%?'' @ b) (length a) \<longleftrightarrow> a \<noteq> [] \<and> last a = CHR ''%''"
    by (rule escaped_at_append)
  have c2: "\<exists>sa ka sb kb s.
           Format_scan (butlast a) pv stream = Inr (sa, ka)
           \<and> Format_scan b (drop ka pv) stream = Inr (sb, kb)
           \<and> Format_scan (a @ ''%?'' @ b) pv stream = Inr (s, ka + kb)
           \<and> Format fm (a @ ''%?'' @ b) args = Inr (ss_buf sa @ ''%?'' @ ss_buf sb)"
    if "escaped (a @ ''%?'' @ b) (length a)"
  proof -
    from that esc have "a \<noteq> []" "last a = CHR ''%''"
      by blast+
    then have eq: "a @ ''%?'' @ b = butlast a @ ''%%?'' @ b"
      by (metis append_butlast_last_id append_Cons append_Nil append_assoc)
    from Format_scan_append_escaped [OF ready, of "butlast a" pv b]
    obtain sa ka sb kb s where
      "Format_scan (butlast a) pv stream = Inr (sa, ka)"
      "Format_scan b (drop ka pv) stream = Inr (sb, kb)"
      "Format_scan (butlast a @ ''%%?'' @ b) pv stream = Inr (s, ka + kb)"
      "ss_buf s = ss_buf sa @ ''%?'' @ ss_buf sb"
      by blast
    with result [of "butlast a @ ''%%?'' @ b" s "ka + kb"] show ?thesis
      unfolding eq by auto
  qed
  have c3: "\<exists>sa ka sb kb s.
           Format_scan a pv stream = Inr (sa, ka)
           \<and> Format_scan b (drop (Suc ka) pv) stream = Inr (sb, kb)
           \<and> Format_scan (a @ ''%?'' @ b) pv stream =
               Inr (s, (if ka < length pv then Suc ka else ka) + kb)
           \<and> Format fm (a @ ''%?'' @ b) args =
               Inr (ss_buf sa @ (if ka < length pv then pv ! ka else ''?'') @ ss_buf sb)"
    if "\<not> escaped (a @ ''%?'' @ b) (length a)"
  proof -
    from that esc have "a = [] \<or> last a \<noteq> CHR ''%''"
      by blast
    from Format_scan_append_site [OF ready this, of pv b]
    obtain sa ka sb kb s where
      parts: "Format_scan a pv stream = Inr (sa, ka)"
        "Format_scan b (drop (Suc ka) pv) stream = Inr (sb, kb)"
      and whole: "Format_scan (a @ ''%?'' @ b) pv stream =
         Inr (s, (if ka < length pv then Suc ka else ka) + kb)"
        "ss_buf s = ss_buf sa @ (if ka < length pv then pv ! ka else ''?'') @ ss_buf sb"
      by blast
    from result [OF whole(1)] whole(2) parts whole(1) show ?thesis
      by auto
  qed
  from Format_scan_ready [OF ready, of "''%%%?''" pv]
  obtain s3 where s3: "Format_scan ''%%%?'' pv stream = Inr (s3, 0)" "ss_buf s3 = ''%%?''"
    by auto
  from result [OF s3(1)] s3(2) have c4: "Format fm ''%%%?'' args = Inr ''%%?''"
    by simp
  from s3 have c5: "\<exists>s. Format_scan ''%%%?'' pv stream = Inr (s, 0)"
    by blast
  have c6: "\<exists>sb kb. Format_scan b (tl pv) stream = Inr (sb, kb)
        \<and> Format fm (''%?'' @ b) args = Inr (hd pv @ ss_buf sb)"
  proof -
    from nonempty obtain p ps where pv: "pv = p # ps" by (cases pv) auto
    from Format_scan_ready [OF ready, of b ps]
    obtain sb where sb: "Format_scan b ps stream = Inr (sb, min (length ps) (sites b))"
      "ss_buf sb = substituted ''%?'' b ps"
      by auto
    from Format_scan_ready [OF ready, of "''%?'' @ b" pv]
    obtain s k where s: "Format_scan (''%?'' @ b) pv stream = Inr (s, k)"
      "ss_buf s = substituted ''%?'' (''%?'' @ b) pv"
      by auto
    from result [OF s(1)] s(2) sb pv show ?thesis
      by auto
  qed
  from esc c2 c3 c4 c5 c6 show ?thesis
    by blast
qed

theorem escape_rule_witness:
  "GetOutputParameters (AssignStreamSettings (Formatter_default (Locale ''C'')))
       [Object (Some (writes ''x'')) None]
     = Inr ([''x''], AssignStreamSettings (Formatter_default (Locale ''C'')))
   \<and> ss_good (AssignStreamSettings (Formatter_default (Locale ''C'')))
   \<and> ss_width (AssignStreamSettings (Formatter_default (Locale ''C''))) = 0
   \<and> escaped ''a%%?b'' 2 \<and> \<not> escaped ''%?b'' 0
   \<and> Format (Formatter_default (Locale ''C'')) ''a%%?b'' [Object (Some (writes ''x'')) None]
       = Inr ''a%?b''
   \<and> Format (Formatter_default (Locale ''C'')) ''%%%?'' [Object (Some (writes ''x'')) None]
       = Inr ''%%?''
   \<and> Format (Formatter_default (Locale ''C'')) ''%?b'' [Object (Some (writes ''x'')) None]
       = Inr ''xb''"
proof -
  note r = rendered_writes(1) [of "Formatter_default (Locale ''C'')" "''x''"]
  note g = stream_fields(1) [of "Formatter_default (Locale ''C'')"]
  note w = stream_fields(2) [of "Formatter_default (Locale ''C'')"]
  note e = stream_fields(3,4) [of "Formatter_default (Locale ''C'')"]
  have e0: "escaped ''a%%?b'' 2" and n0: "\<not> escaped ''%?b'' 0"
    by (simp_all add: escaped_def occurrence_def)
  have esc: "escaped (''a%'' @ ''%?'' @ ''b'') (length ''a%'')"
    by (simp add: escaped_def occurrence_def)
  from Format_scan_ready [OF g w e, of "butlast ''a%''" "[''x'']"]
  obtain sa where a: "Format_scan (butlast ''a%'') [''x'']
      (AssignStreamSettings (Formatter_default (Locale ''C''))) = Inr (sa, 0)" "ss_buf sa = ''a''"
    by auto
  from Format_scan_ready [OF g w e, of "''b''" "[''x'']"]
  obtain sb where b: "Format_scan ''b'' [''x'']
      (AssignStreamSettings (Formatter_default (Locale ''C''))) = Inr (sb, 0)" "ss_buf sb = ''b''"
    by auto
  from Format_scan_ready [OF g w e, of "''b''" "[]"]
  obtain sc where c: "Format_scan ''b'' []
      (AssignStreamSettings (Formatter_default (Locale ''C''))) = Inr (sc, 0)" "ss_buf sc = ''b''"
    by auto
  from escape_rule [OF r g w, of "''a%''" "''b''"] esc a b
  have "Format (Formatter_default (Locale ''C'')) ''a%%?b'' [Object (Some (writes ''x'')) None]
       = Inr ''a%?b''"
    by auto
  moreover from escape_rule [OF r g w, of "[]" "''b''"] c
  have "Format (Formatter_default (Locale ''C'')) ''%?b'' [Object (Some (writes ''x'')) None]
       = Inr ''xb''"
    by auto
  moreover from escape_rule [OF r g w, of "[]" "[]"]
  have "Format (Formatter_default (Locale ''C'')) ''%%%?'' [Object (Some (writes ''x'')) None]
       = Inr ''%%?''"
    by blast
  ultimately show ?thesis
    using r g w e0 n0 by blast
qed

text \<open>
  C10 as stated fails for a call with no argument: \<open>Format("%%%?")\<close> is \<open>%%%?\<close>, and
  the \<open>%?\<close> at the start of \<open>%?b\<close> is not substituted. With one argument whose
  \<open>operator<<\<close> sets \<open>failbit\<close>, \<open>Format("%%%?", x)\<close> is empty.
\<close>

theorem escape_rule_counterexample:
  "Format (Formatter_default (Locale ''C'')) ''%%%?'' [] = Inr ''%%%?''
   \<and> Format (Formatter_default (Locale ''C'')) ''%%%?'' [] \<noteq> Inr ''%%?''
   \<and> \<not> escaped ''%?b'' 0
   \<and> Format (Formatter_default (Locale ''C'')) ''%?b'' [] = Inr ''%?b''
   \<and> GetOutputParameters (AssignStreamSettings (Formatter_default (Locale ''C'')))
       [Object (Some (writes_and_fails ''x'')) None]
     = Inr ([''x''], (AssignStreamSettings (Formatter_default (Locale ''C'')))\<lparr>ss_good := False\<rparr>)
   \<and> Format (Formatter_default (Locale ''C'')) ''%%%?''
       [Object (Some (writes_and_fails ''x'')) None] = Inr []
   \<and> Format (Formatter_default (Locale ''C'')) ''%%%?''
       [Object (Some (writes_and_fails ''x'')) None] \<noteq> Inr ''%%?''"
proof -
  have zero: "Format (Formatter_default (Locale ''C'')) ''%%%?'' [] = Inr ''%%%?''"
    "Format (Formatter_default (Locale ''C'')) ''%?b'' [] = Inr ''%?b''"
    by (simp_all add: Format_def Format_noargs_def)
  moreover from zero
  have "Format (Formatter_default (Locale ''C'')) ''%%%?'' [] \<noteq> Inr ''%%?''"
    by simp
  moreover have "\<not> escaped ''%?b'' 0"
    by (simp add: escaped_def)
  moreover note r = rendered_fails(1) [of "Formatter_default (Locale ''C'')" "''x''"]
  moreover from Format_failed_stream [OF r, of "''%%%?''"]
  have failed: "Format (Formatter_default (Locale ''C'')) ''%%%?''
       [Object (Some (writes_and_fails ''x'')) None] = Inr []"
    by simp
  moreover from failed have "Format (Formatter_default (Locale ''C'')) ''%%%?''
       [Object (Some (writes_and_fails ''x'')) None] \<noteq> Inr ''%%?''"
    by simp
  ultimately show ?thesis by blast
qed

section \<open>Templates without arguments or without placeholders\<close>

text \<open>
  C5, as amended. The overload of \<open>Format\<close> for a call with no argument returns the
  template unchanged and does not scan it. The scan of the variadic overload, run with
  an empty argument list on the stream that \<open>Format\<close> starts with, builds the same
  string exactly when \<open>%?\<close> does not occur in the template.
\<close>

theorem Format_noargs_and_scan:
  "Format fm str [] = Inr str
   \<and> (\<exists>stream'. Format_scan str [] (AssignStreamSettings fm) = Inr (stream', 0)
        \<and> (ss_buf stream' = str \<longleftrightarrow> \<not> sublist ''%?'' str))"
proof -
  have changes: "substituted ''%?'' str [] = str \<longleftrightarrow> \<not> sublist ''%?'' str"
    using substituted_none_changes [of str] search_None_substituted [of str "''%?''" "[]"]
    by (auto simp add: search_None_iff)
  from Format_scan_ready [of "AssignStreamSettings fm" str "[]", OF stream_fields]
  obtain stream' where scan: "Format_scan str [] (AssignStreamSettings fm) = Inr (stream', 0)"
    and buf: "ss_buf stream' = substituted ''%?'' str []"
    by auto
  from changes buf have "ss_buf stream' = str \<longleftrightarrow> \<not> sublist ''%?'' str"
    by simp
  with scan have "\<exists>stream'. Format_scan str [] (AssignStreamSettings fm) = Inr (stream', 0)
        \<and> (ss_buf stream' = str \<longleftrightarrow> \<not> sublist ''%?'' str)"
    by (intro exI [of _ stream'] conjI)
  moreover have "Format fm str [] = Inr str"
    by (simp add: Format_def Format_noargs_def)
  ultimately show ?thesis by (rule conjI [rotated])
qed

theorem Format_noargs_and_scan_witness:
  "Format (Formatter_default (Locale ''C'')) ''No args'' [] = Inr ''No args''
   \<and> Format_scan ''No args'' [] (AssignStreamSettings (Formatter_default (Locale ''C'')))
       = Inr (with_text (AssignStreamSettings (Formatter_default (Locale ''C''))) ''No args'', 0)
   \<and> \<not> sublist ''%?'' ''No args''"
proof -
  have "Format_scan ''No args'' [] (AssignStreamSettings (Formatter_default (Locale ''C'')))
       = Inr (with_text (AssignStreamSettings (Formatter_default (Locale ''C''))) ''No args'', 0)"
    by code_simp
  moreover from Format_noargs_and_scan [of "Formatter_default (Locale ''C'')" "''No args''"]
  have "Format (Formatter_default (Locale ''C'')) ''No args'' [] = Inr ''No args''"
    by (rule conjunct1)
  moreover have "\<not> sublist ''%?'' ''No args''"
    by (simp add: search_None_iff [symmetric])
  ultimately show ?thesis by (intro conjI)
qed

text \<open>
  C5 as stated fails: for the template \<open>%?\<close> the call with no argument returns
  \<open>%?\<close>, and the scan with an empty argument list builds \<open>?\<close>.
\<close>

theorem Format_noargs_and_scan_counterexample:
  "Format (Formatter_default (Locale ''C'')) ''%?'' [] = Inr ''%?''
   \<and> Format_scan ''%?'' [] (AssignStreamSettings (Formatter_default (Locale ''C'')))
       = Inr (with_text (AssignStreamSettings (Formatter_default (Locale ''C''))) ''?'', 0)
   \<and> ss_buf (with_text (AssignStreamSettings (Formatter_default (Locale ''C''))) ''?'') = ''?''
   \<and> Format (Formatter_default (Locale ''C'')) ''%?'' [] \<noteq> Inr ''?''"
proof -
  have "Format_scan ''%?'' [] (AssignStreamSettings (Formatter_default (Locale ''C'')))
       = Inr (with_text (AssignStreamSettings (Formatter_default (Locale ''C''))) ''?'', 0)"
    by code_simp
  then show ?thesis
    by (simp add: Format_def Format_noargs_def with_text_fields)
qed




section \<open>Rendering\<close>







text \<open>
  C4, as amended. The overload that renders a value is the first rule that applies in
  the order boolean, text, pair, custom-convertible, sequence, unknown, with one
  exception: custom conversion has no priority over the sequence rule. A value that is
  custom-convertible and a sequence, and neither a boolean, a string nor a pair, selects
  no overload: the call is ambiguous and does not compile. A boolean is written as
  \<open>true\<close> or \<open>false\<close>, a string as it is, a pair by the pair rule even when it has
  an \<open>operator<<\<close>, a value of unknown type as \<open>?\<close>, each by \<open>stream << s\<close>: on a
  stream that is good with field width 0 this appends the text. A value wrapped by
  \<open>Output\<close> is rendered by its own \<open>operator<<\<close>.
\<close>

theorem OutputValue_dispatch:
  "resolve v =
     (if viable v Ov_stream \<and> viable v Ov_iter
         \<and> \<not> viable v Ov_bool \<and> \<not> viable v Ov_string \<and> \<not> viable v Ov_pair
      then None else Some (priority_rule v))
   \<and> OutputValue st (Bool b) = Inr (put_string (if b then ''true'' else ''false'') st)
   \<and> OutputValue st (BasicString s) = Inr (put_string s st)
   \<and> OutputValue st (StdPair x y ins) =
       (case OutputValue (put_string ''{'' st) x of
          Inl e \<Rightarrow> Inl e
        | Inr st1 \<Rightarrow>
            (case OutputValue (put_string '' : '' st1) y of
               Inl e \<Rightarrow> Inl e
             | Inr st2 \<Rightarrow> Inr (put_string ''}'' st2)))
   \<and> OutputValue st (Object (Some f) None) = f st
   \<and> OutputValue st (Object (Some f) (Some c)) = Inl IllFormed
   \<and> OutputValue st (Object None None) = Inr (put_string ''?'' st)
   \<and> (ss_good st \<and> ss_width st = 0 \<longrightarrow>
        renders st (Bool b) (if b then ''true'' else ''false'')
        \<and> renders st (BasicString s) s
        \<and> renders st (Object None None) ''?'')
   \<and> (case Output put_bool v of
         None \<Rightarrow> \<not> streamable v
       | Some w \<Rightarrow> resolve w = Some Ov_stream
           \<and> OutputValue st w =
               (case v of
                  Bool c \<Rightarrow> put_bool c st
                | BasicString t \<Rightarrow> Inr (put_string t st)
                | StdPair p q g \<Rightarrow> (case g of None \<Rightarrow> Inl IllFormed | Some h \<Rightarrow> h st)
                | Object g els \<Rightarrow> (case g of None \<Rightarrow> Inl IllFormed | Some h \<Rightarrow> h st)))"
proof -
  have "resolve v =
     (if viable v Ov_stream \<and> viable v Ov_iter
         \<and> \<not> viable v Ov_bool \<and> \<not> viable v Ov_string \<and> \<not> viable v Ov_pair
      then None else Some (priority_rule v))"
  proof (cases v)
    case (Object g els)
    then show ?thesis
      by (cases g; cases els) (simp_all add: resolve_cases priority_rule_cases)
  qed (simp_all add: resolve_cases priority_rule_cases)
  moreover have "case Output put_bool v of
         None \<Rightarrow> \<not> streamable v
       | Some w \<Rightarrow> resolve w = Some Ov_stream
           \<and> OutputValue st w =
               (case v of
                  Bool c \<Rightarrow> put_bool c st
                | BasicString t \<Rightarrow> Inr (put_string t st)
                | StdPair p q g \<Rightarrow> (case g of None \<Rightarrow> Inl IllFormed | Some h \<Rightarrow> h st)
                | Object g els \<Rightarrow> (case g of None \<Rightarrow> Inl IllFormed | Some h \<Rightarrow> h st))"
  proof (cases v)
    case (StdPair p q g)
    then show ?thesis by (cases g) (simp_all add: resolve_cases)
  next
    case (Object g els)
    then show ?thesis by (cases g) (simp_all add: resolve_cases)
  qed (simp_all add: resolve_cases)
  moreover have "ss_good st \<and> ss_width st = 0 \<longrightarrow>
        renders st (Bool b) (if b then ''true'' else ''false'')
        \<and> renders st (BasicString s) s
        \<and> renders st (Object None None) ''?''"
    using renders_simple(1-3) [of st] by blast
  moreover have "OutputValue st (Bool b) = Inr (put_string (if b then ''true'' else ''false'') st)"
    "OutputValue st (BasicString s) = Inr (put_string s st)"
    "OutputValue st (Object (Some f) None) = f st"
    "OutputValue st (Object (Some f) (Some c)) = Inl IllFormed"
    "OutputValue st (Object None None) = Inr (put_string ''?'' st)"
    by (simp_all add: resolve_cases)
  moreover have "OutputValue st (StdPair x y ins) =
       (case OutputValue (put_string ''{'' st) x of
          Inl e \<Rightarrow> Inl e
        | Inr st1 \<Rightarrow>
            (case OutputValue (put_string '' : '' st1) y of
               Inl e \<Rightarrow> Inl e
             | Inr st2 \<Rightarrow> Inr (put_string ''}'' st2)))"
    by (simp add: resolve_cases)
  ultimately show ?thesis
    by (intro conjI)
qed

theorem OutputValue_dispatch_witness:
  "resolve (Object (Some (writes ''Type Y'')) None) = Some Ov_stream
   \<and> resolve (StdPair (Bool True) (Bool False) (Some (writes ''custom''))) = Some Ov_pair
   \<and> ss_good (AssignStreamSettings (Formatter_default (Locale ''C'')))
   \<and> ss_width (AssignStreamSettings (Formatter_default (Locale ''C''))) = 0
   \<and> OutputValue (AssignStreamSettings (Formatter_default (Locale ''C''))) (Bool True)
       = Inr (with_text (AssignStreamSettings (Formatter_default (Locale ''C''))) ''true'')
   \<and> OutputValue (AssignStreamSettings (Formatter_default (Locale ''C'')))
       (StdPair (Bool True) (Bool False) (Some (writes ''custom'')))
       = Inr (with_text (AssignStreamSettings (Formatter_default (Locale ''C'')))
           ''{true : false}'')
   \<and> Output writes_digit (Object (Some (writes ''custom'')) (Some (True, [])))
       = Some (Object (Some (writes ''custom'')) None)
   \<and> OutputValue (AssignStreamSettings (Formatter_default (Locale ''C'')))
       (Object (Some (writes ''custom'')) None)
       = Inr (with_text (AssignStreamSettings (Formatter_default (Locale ''C''))) ''custom'')"
proof -
  note g = stream_fields(1) [of "Formatter_default (Locale ''C'')"]
  note w = stream_fields(2) [of "Formatter_default (Locale ''C'')"]
  note e = stream_fields(3,4) [of "Formatter_default (Locale ''C'')"]
  note d1 = OutputValue_dispatch [where v = "Object (Some (writes ''Type Y'')) None"
      and st = "AssignStreamSettings (Formatter_default (Locale ''C''))" and b = True
      and s = "''s''" and x = "Bool True" and y = "Bool False"
      and ins = "Some (writes ''custom'')" and f = "writes ''custom''" and c = "(True, [])"
      and put_bool = writes_digit]
  note d2 = OutputValue_dispatch [where
      v = "StdPair (Bool True) (Bool False) (Some (writes ''custom''))"
      and st = "AssignStreamSettings (Formatter_default (Locale ''C''))" and b = True
      and s = "''s''" and x = "Bool True" and y = "Bool False"
      and ins = "Some (writes ''custom'')" and f = "writes ''custom''" and c = "(True, [])"
      and put_bool = writes_digit]
  from d1 have a: "resolve (Object (Some (writes ''Type Y'')) None) = Some Ov_stream"
    by (simp add: priority_rule_cases)
  from d2 have b: "resolve (StdPair (Bool True) (Bool False) (Some (writes ''custom'')))
      = Some Ov_pair"
    by (simp add: priority_rule_cases)
  from d1 g w have "renders (AssignStreamSettings (Formatter_default (Locale ''C'')))
      (Bool True) ''true''"
    by simp
  from renders_start [OF this e]
  have c: "OutputValue (AssignStreamSettings (Formatter_default (Locale ''C''))) (Bool True)
       = Inr (with_text (AssignStreamSettings (Formatter_default (Locale ''C''))) ''true'')" .
  from d2 have d: "OutputValue (AssignStreamSettings (Formatter_default (Locale ''C'')))
       (StdPair (Bool True) (Bool False) (Some (writes ''custom'')))
       = Inr (with_text (AssignStreamSettings (Formatter_default (Locale ''C'')))
           ''{true : false}'')"
    by (simp add: resolve_cases put_string_def overwrite_def padded_def with_text_def
        AssignStreamSettings_def)
  have o: "Output writes_digit (Object (Some (writes ''custom'')) (Some (True, [])))
       = Some (Object (Some (writes ''custom'')) None)"
    by simp
  from d1 have f: "OutputValue (AssignStreamSettings (Formatter_default (Locale ''C'')))
       (Object (Some (writes ''custom'')) None)
       = Inr (with_text (AssignStreamSettings (Formatter_default (Locale ''C''))) ''custom'')"
    by (simp add: writes_def put_string_def overwrite_def padded_def with_text_def
        AssignStreamSettings_def)
  from a b g w c d o f show ?thesis by (intro conjI)
qed

text \<open>
  C4 as stated fails for a value that is custom-convertible and a sequence: the priority
  order selects the custom conversion, the code selects no overload.
\<close>

theorem OutputValue_dispatch_counterexample:
  "viable (Object (Some (writes ''custom'')) (Some (True, []))) Ov_stream
   \<and> viable (Object (Some (writes ''custom'')) (Some (True, []))) Ov_iter
   \<and> priority_rule (Object (Some (writes ''custom'')) (Some (True, []))) = Ov_stream
   \<and> resolve (Object (Some (writes ''custom'')) (Some (True, []))) = None
   \<and> OutputValue (AssignStreamSettings (Formatter_default (Locale ''C'')))
       (Object (Some (writes ''custom'')) (Some (True, []))) = Inl IllFormed
   \<and> OutputValue (AssignStreamSettings (Formatter_default (Locale ''C'')))
       (Object (Some (writes ''custom'')) (Some (True, [])))
       \<noteq> writes ''custom'' (AssignStreamSettings (Formatter_default (Locale ''C'')))"
  by (simp add: resolve_cases priority_rule_cases writes_def)

section \<open>The settings accessors\<close>

text \<open>
  C8, as amended. \<open>Flags(flags)\<close>, \<open>SetF(flags)\<close>, \<open>SetF(flags, mask)\<close>,
  \<open>Precision(prec)\<close> and \<open>Imbue(loc)\<close> each return the flags, the precision or the
  locale that the formatter held before the call. \<open>UnSetF\<close> returns nothing: it only
  removes the given flags from the formatter.
\<close>

theorem setters_return_previous:
  "fst (Flags_set flags fm) = Flags fm
   \<and> fst (SetF flags fm) = Flags fm
   \<and> fst (SetF_masked flags msk fm) = Flags fm
   \<and> fst (Precision_set prec fm) = Precision fm
   \<and> fst (Imbue loc fm) = Getloc fm
   \<and> UnSetF flags fm = ((), fm\<lparr>m_flags := Flags fm - flags\<rparr>)"
  by (simp add: Flags_set_def SetF_def SetF_masked_def Precision_set_def Imbue_def
      UnSetF_def Flags_def Precision_def Getloc_def Let_def)

theorem setters_return_previous_witness:
  "fst (Flags_set {Hex} (Formatter_default (Locale ''C''))) = {Skipws, Dec}
   \<and> fst (SetF {Hex} (Formatter_default (Locale ''C''))) = {Skipws, Dec}
   \<and> fst (SetF_masked {Hex} {Hex, Dec, Oct} (Formatter_default (Locale ''C''))) = {Skipws, Dec}
   \<and> fst (Precision_set 3 (Formatter_default (Locale ''C''))) = 6
   \<and> fst (Imbue (Locale ''de_DE'') (Formatter_default (Locale ''C''))) = Locale ''C''
   \<and> Flags (snd (UnSetF {Dec} (Formatter_default (Locale ''C'')))) = {Skipws}"
  using setters_return_previous [where flags = "{Hex}" and msk = "{Hex, Dec, Oct}"
      and fm = "Formatter_default (Locale ''C'')" and prec = 3 and loc = "Locale ''de_DE''"]
    setters_return_previous [where flags = "{Dec}" and msk = "{Hex, Dec, Oct}"
      and fm = "Formatter_default (Locale ''C'')" and prec = 3 and loc = "Locale ''de_DE''"]
  by (auto simp add: Formatter_default_def Flags_def Precision_def Getloc_def)

text \<open>
  C8 as stated fails for \<open>UnSetF\<close>: its result is the same for two formatters that
  held different flags, so it is not the value held before the call.
\<close>

theorem UnSetF_result_counterexample:
  "fst (UnSetF {Dec} (Formatter_init (Locale ''C'') {Dec} 6))
     = fst (UnSetF {Dec} (Formatter_init (Locale ''C'') {Hex} 6))
   \<and> Flags (Formatter_init (Locale ''C'') {Dec} 6)
     \<noteq> Flags (Formatter_init (Locale ''C'') {Hex} 6)"
  by (simp add: Flags_def Formatter_init_def)

end
